theory Spec2Isabelle
  imports Main "HOL-Library.Multiset"
begin

section \<open>JavaScript values\<close>

text \<open>
  The event payload is the result of \<^verbatim>\<open>JSON.parse\<close> and is typed
  \<^verbatim>\<open>Record<string, unknown>\<close>; the \<^verbatim>\<open>as\<close> casts of the handler are erased at
  run time, so the model keeps the payload untyped. The handler never calculates with a
  number of the payload: it tests it for truth, stores it, or uses it as a property key.
  A number is therefore kept as \<open>JNum r\<close>, where \<open>r\<close> is the text \<^verbatim>\<open>ToString\<close>
  gives for it (\<^verbatim>\<open>2\<close>, \<^verbatim>\<open>1.5\<close>, \<^verbatim>\<open>1e+21\<close>; zero and minus zero are both
  \<^verbatim>\<open>0\<close>, and \<^verbatim>\<open>JSON.parse\<close> yields neither \<^verbatim>\<open>NaN\<close> nor an infinity).
  \<open>JUndefined\<close> is what reading an absent property gives.
\<close>

datatype jsval =
    JUndefined
  | JNull
  | JBool bool
  | JNum string
  | JStr string
  | JArr "jsval list"
  | JObj "(string \<times> jsval) list"

datatype js_error = TypeError

text \<open>Truthiness, as tested by \<^verbatim>\<open>if (v)\<close> and \<^verbatim>\<open>v || w\<close>.\<close>

fun truthy :: "jsval \<Rightarrow> bool" where
  "truthy JUndefined = False"
| "truthy JNull = False"
| "truthy (JBool b) = b"
| "truthy (JNum r) = (r \<noteq> ''0'')"
| "truthy (JStr s) = (s \<noteq> [])"
| "truthy (JArr xs) = True"
| "truthy (JObj kvs) = True"

definition js_or :: "jsval \<Rightarrow> jsval \<Rightarrow> jsval" where
  "js_or v w = (if truthy v then v else w)"

fun join :: "string \<Rightarrow> string list \<Rightarrow> string" where
  "join sep [] = []"
| "join sep [x] = x"
| "join sep (x # y # ys) = x @ sep @ join sep (y # ys)"

text \<open>
  \<^verbatim>\<open>ToPropertyKey\<close>, which a computed key \<^verbatim>\<open>[taskId]\<close> and a lookup
  \<^verbatim>\<open>obj[taskId]\<close> apply to the value: a string is its own key. An array joins the
  keys of its elements with a comma, where \<^verbatim>\<open>null\<close> and \<^verbatim>\<open>undefined\<close> elements
  give the empty string. An object of the payload is converted by the inherited
  \<^verbatim>\<open>toString\<close>, unless it has an own property \<^verbatim>\<open>toString\<close>: a value of the
  payload is never callable, the inherited \<^verbatim>\<open>valueOf\<close> returns the object itself,
  and the conversion throws.
\<close>

fun toPropertyKey :: "jsval \<Rightarrow> js_error + string"
  and elementKeys :: "jsval list \<Rightarrow> js_error + string list" where
  "toPropertyKey JUndefined = Inr ''undefined''"
| "toPropertyKey JNull = Inr ''null''"
| "toPropertyKey (JBool b) = Inr (if b then ''true'' else ''false'')"
| "toPropertyKey (JNum r) = Inr r"
| "toPropertyKey (JStr s) = Inr s"
| "toPropertyKey (JArr xs) =
     (case elementKeys xs of Inl e \<Rightarrow> Inl e | Inr ks \<Rightarrow> Inr (join '','' ks))"
| "toPropertyKey (JObj kvs) =
     (if ''toString'' \<in> fst ` set kvs then Inl TypeError else Inr ''[object Object]'')"
| "elementKeys [] = Inr []"
| "elementKeys (x # xs) =
     (case (if x = JUndefined \<or> x = JNull then Inr [] else toPropertyKey x) of
        Inl e \<Rightarrow> Inl e
      | Inr k \<Rightarrow> (case elementKeys xs of Inl e \<Rightarrow> Inl e | Inr ks \<Rightarrow> Inr (k # ks)))"

text \<open>
  Reading a property \<^verbatim>\<open>v.k\<close>. On \<^verbatim>\<open>null\<close> and \<^verbatim>\<open>undefined\<close> it throws; on an
  object it gives the property or \<^verbatim>\<open>undefined\<close>. The handler reads only names that no
  built-in prototype defines (\<^verbatim>\<open>id\<close>, \<^verbatim>\<open>status\<close>, \<^verbatim>\<open>task_id\<close>, ...), so on a
  primitive or an array the read gives \<^verbatim>\<open>undefined\<close>.
\<close>

fun getProp :: "jsval \<Rightarrow> string \<Rightarrow> js_error + jsval" where
  "getProp JUndefined k = Inl TypeError"
| "getProp JNull k = Inl TypeError"
| "getProp (JObj kvs) k = Inr (case map_of kvs k of None \<Rightarrow> JUndefined | Some v \<Rightarrow> v)"
| "getProp v k = Inr JUndefined"

text \<open>The value of \<^verbatim>\<open>v.k\<close> where the read does not throw.\<close>

definition field :: "jsval \<Rightarrow> string \<Rightarrow> jsval" where
  "field v k = (case getProp v k of Inl e \<Rightarrow> JUndefined | Inr x \<Rightarrow> x)"

text \<open>
  The values a \<^verbatim>\<open>for (const t of v)\<close> loop visits: the elements of an array, the
  characters of a string; any other JSON value is not iterable.
\<close>

fun iterate :: "jsval \<Rightarrow> js_error + jsval list" where
  "iterate (JArr xs) = Inr xs"
| "iterate (JStr s) = Inr (map (\<lambda>c. JStr [c]) s)"
| "iterate v = Inl TypeError"

section \<open>The action store (stores/action-store.ts)\<close>

text \<open>
  The zustand store of the currently viewed action. \<^verbatim>\<open>taskOverrides\<close>,
  \<^verbatim>\<open>taskLogs\<close> and \<^verbatim>\<open>codeExecutions\<close> are plain objects used as dictionaries
  keyed by task id, modelled as maps from key to value that hold the own properties; an
  override and a code-execution state are objects merged by spread, modelled as maps
  from property name to value, where \<^verbatim>\<open>{...a, ...b}\<close> is \<open>a ++ b\<close>. The type
  annotations of the store are erased at run time, so fields the handler fills from the
  payload hold untyped values.
\<close>

type_synonym jsobj = "string \<rightharpoonup> jsval"

record log_input =
  level :: jsval
  message :: jsval

record log_entry = log_input +
  timestamp :: string

record action_store =
  currentActionId :: string
  taskOverrides :: "string \<rightharpoonup> jsobj"
  actionStatus :: jsval
  recoveryAttempt :: jsval
  taskLogs :: "string \<rightharpoonup> log_entry list"
  codeExecutions :: "string \<rightharpoonup> jsobj"

definition defaultCodeState :: jsobj where
  "defaultCodeState =
     [''status'' \<mapsto> JStr ''idle'', ''stdout'' \<mapsto> JStr [], ''stderr'' \<mapsto> JStr [],
      ''artifactIds'' \<mapsto> JArr []]"

definition initialStore :: action_store where
  "initialStore =
     \<lparr>currentActionId = [], taskOverrides = Map.empty, actionStatus = JNull,
      recoveryAttempt = JNull, taskLogs = Map.empty, codeExecutions = Map.empty\<rparr>"

text \<open>
  A lookup \<^verbatim>\<open>obj[key]\<close> on a plain object that has no own property of that name
  goes to \<^verbatim>\<open>Object.prototype\<close>. For the names below it finds a member there: a
  function, or for \<^verbatim>\<open>__proto__\<close> the prototype object itself. Each of them is
  truthy, is not iterable, and has no enumerable own property.
\<close>

definition objectPrototypeMembers :: "string list" where
  "objectPrototypeMembers =
     [''constructor'', ''__defineGetter__'', ''__defineSetter__'', ''hasOwnProperty'',
      ''__lookupGetter__'', ''__lookupSetter__'', ''isPrototypeOf'', ''propertyIsEnumerable'',
      ''toString'', ''valueOf'', ''__proto__'', ''toLocaleString'']"

text \<open>
  Spreading \<^verbatim>\<open>...v\<close> into an object literal: \<^verbatim>\<open>undefined\<close> contributes no
  property, and neither does an inherited member of \<^verbatim>\<open>Object.prototype\<close>. So
  \<^verbatim>\<open>{...state.taskOverrides[taskId], ...override}\<close> depends on the own property only.
\<close>

definition spread :: "jsobj option \<Rightarrow> jsobj" where
  "spread v = (case v of None \<Rightarrow> Map.empty | Some ob \<Rightarrow> ob)"

text \<open>
  The store functions receive the task id as the caller passes it and use it as a
  property key; the conversion to a key (\<open>toPropertyKey\<close>) happens inside the update,
  before the state changes. In the model the caller converts and passes the key.
\<close>

definition setTaskOverride :: "string \<Rightarrow> jsobj \<Rightarrow> action_store \<Rightarrow> action_store" where
  "setTaskOverride taskId override state =
     state\<lparr>taskOverrides := (taskOverrides state)
       (taskId \<mapsto> spread (taskOverrides state taskId) ++ override)\<rparr>"

definition setActionStatus :: "jsval \<Rightarrow> action_store \<Rightarrow> action_store" where
  "setActionStatus status state = state\<lparr>actionStatus := status\<rparr>"

definition setRecoveryAttempt :: "jsval \<Rightarrow> action_store \<Rightarrow> action_store" where
  "setRecoveryAttempt attempt state = state\<lparr>recoveryAttempt := attempt\<rparr>"

text \<open>
  \<^verbatim>\<open>appendTaskLog\<close> stamps the entry with \<^verbatim>\<open>new Date().toISOString()\<close>; the clock
  reading is the parameter \<open>now\<close>. The new list is
  \<^verbatim>\<open>[...(state.taskLogs[taskId] || []), entry]\<close>: with an own property it extends that
  list; with none and a key that names a member of \<^verbatim>\<open>Object.prototype\<close> the lookup
  gives the member, \<^verbatim>\<open>||\<close> keeps it, the array spread throws and the state is not
  changed; otherwise it starts from the empty list.
\<close>

definition appendTaskLog :: "string \<Rightarrow> string \<Rightarrow> log_input \<Rightarrow> action_store \<Rightarrow> js_error + action_store" where
  "appendTaskLog now taskId lg state =
     (case taskLogs state taskId of
        Some ls \<Rightarrow>
          Inr (state\<lparr>taskLogs := (taskLogs state)
                 (taskId \<mapsto> ls @ [log_input.extend lg \<lparr>timestamp = now\<rparr>])\<rparr>)
      | None \<Rightarrow>
          if taskId \<in> set objectPrototypeMembers then Inl TypeError
          else Inr (state\<lparr>taskLogs := (taskLogs state)
                      (taskId \<mapsto> [log_input.extend lg \<lparr>timestamp = now\<rparr>])\<rparr>))"

definition resetForAction :: "string \<Rightarrow> action_store \<Rightarrow> action_store" where
  "resetForAction actionId state =
     state\<lparr>currentActionId := actionId, taskOverrides := Map.empty, actionStatus := JNull,
           recoveryAttempt := JNull, taskLogs := Map.empty, codeExecutions := Map.empty\<rparr>"

definition resetLogs :: "string \<Rightarrow> action_store \<Rightarrow> action_store" where
  "resetLogs taskId state = state\<lparr>taskLogs := (taskLogs state)(taskId := None)\<rparr>"

text \<open>
  \<^verbatim>\<open>{...(state.codeExecutions[taskId] || defaultCodeState), ...data}\<close>: an inherited
  member is truthy, so it replaces the default state, and its spread is empty.
\<close>

definition setCodeExecution :: "string \<Rightarrow> jsobj \<Rightarrow> action_store \<Rightarrow> action_store" where
  "setCodeExecution taskId data state =
     state\<lparr>codeExecutions := (codeExecutions state)
       (taskId \<mapsto>
          (case codeExecutions state taskId of
             Some cs \<Rightarrow> cs
           | None \<Rightarrow> if taskId \<in> set objectPrototypeMembers then Map.empty else defaultCodeState)
          ++ data)\<rparr>"

section \<open>The event handler (hooks/use-action-events.ts)\<close>

text \<open>
  What the handler of \<^verbatim>\<open>useActionEvents\<close> can change: the store, the error counter
  \<^verbatim>\<open>errorCountRef.current\<close>, and the queries it has asked the query client to
  invalidate (the query keys, in call order).
\<close>

record client =
  store :: action_store
  errorCount :: nat
  invalidated :: "string list list"

datatype outcome = Returned | Threw js_error

definition inStore :: "(action_store \<Rightarrow> action_store) \<Rightarrow> client \<Rightarrow> client" where
  "inStore f c = c\<lparr>store := f (store c)\<rparr>"

definition invalidateQueries :: "string list \<Rightarrow> client \<Rightarrow> client" where
  "invalidateQueries queryKey c = c\<lparr>invalidated := invalidated c @ [queryKey]\<rparr>"

text \<open>Reading \<^verbatim>\<open>data.k\<close> and continuing with the value; a throw ends the handler.\<close>

definition reading :: "jsval \<Rightarrow> string \<Rightarrow> client \<Rightarrow> (jsval \<Rightarrow> outcome \<times> client) \<Rightarrow> outcome \<times> client" where
  "reading data k c f = (case getProp data k of Inl e \<Rightarrow> (Threw e, c) | Inr v \<Rightarrow> f v)"

text \<open>
  Calling a store function with the value \<open>v\<close> as task id: the key conversion inside
  the update throws before the store changes, or gives the key.
\<close>

definition keyed :: "jsval \<Rightarrow> client \<Rightarrow> (string \<Rightarrow> outcome \<times> client) \<Rightarrow> outcome \<times> client" where
  "keyed v c f = (case toPropertyKey v of Inl e \<Rightarrow> (Threw e, c) | Inr k \<Rightarrow> f k)"

text \<open>The call \<^verbatim>\<open>appendTaskLog(v, {level, message})\<close> of the handler.\<close>

definition logging :: "string \<Rightarrow> jsval \<Rightarrow> log_input \<Rightarrow> client \<Rightarrow> outcome \<times> client" where
  "logging now v lg c =
     keyed v c (\<lambda>k.
       case appendTaskLog now k lg (store c) of
         Inl e \<Rightarrow> (Threw e, c)
       | Inr s \<Rightarrow> (Returned, c\<lparr>store := s\<rparr>))"

text \<open>The string a string value holds; used for the ids of tasks whose id is a string.\<close>

definition stringOf :: "jsval \<Rightarrow> string" where
  "stringOf v = (case v of JStr s \<Rightarrow> s | _ \<Rightarrow> [])"

text \<open>
  For an element \<open>t\<close> of the list whose \<^verbatim>\<open>id\<close> is a string: that id, which is the key
  \<^verbatim>\<open>[t.id]\<close> under which the loop stores its override.
\<close>

definition taskKey :: "jsval \<Rightarrow> string" where
  "taskKey t = stringOf (field t ''id'')"

text \<open>The override object \<^verbatim>\<open>{status: t.status, output_summary: t.output_summary}\<close>.\<close>

definition snapshotOverride :: "jsval \<Rightarrow> jsobj" where
  "snapshotOverride t =
     [''status'' \<mapsto> field t ''status'', ''output_summary'' \<mapsto> field t ''output_summary'']"

text \<open>
  The loop of the \<^verbatim>\<open>snapshot\<close> case:
  \<^verbatim>\<open>for (const t of tasks) setTaskOverride(t.id, {status: t.status, output_summary: t.output_summary})\<close>.
  A throw leaves the overrides already stored in place.
\<close>

fun snapshotLoop :: "jsval list \<Rightarrow> client \<Rightarrow> outcome \<times> client" where
  "snapshotLoop [] c = (Returned, c)"
| "snapshotLoop (t # ts) c =
     reading t ''id'' c (\<lambda>tid.
     reading t ''status'' c (\<lambda>st.
     reading t ''output_summary'' c (\<lambda>summary.
     keyed tid c (\<lambda>k.
       snapshotLoop ts
         (inStore (setTaskOverride k
            [''status'' \<mapsto> st, ''output_summary'' \<mapsto> summary]) c)))))"

text \<open>The \<^verbatim>\<open>switch (event)\<close> of the handler; an event name without a case changes nothing.\<close>

definition switchEvent :: "string \<Rightarrow> string \<Rightarrow> string \<Rightarrow> jsval \<Rightarrow> client \<Rightarrow> outcome \<times> client" where
  "switchEvent actionId now event data c =
    (if event = ''snapshot'' then
       reading data ''tasks'' c (\<lambda>tasks.
         case iterate tasks of
           Inl e \<Rightarrow> (Threw e, c)
         | Inr ts \<Rightarrow>
            (case snapshotLoop ts c of
               (Threw e, c1) \<Rightarrow> (Threw e, c1)
             | (Returned, c1) \<Rightarrow>
                 reading data ''status'' c1 (\<lambda>status.
                   if truthy status then (Returned, inStore (setActionStatus status) c1)
                   else (Returned, c1))))
     else if event = ''task.started'' then
       reading data ''task_id'' c (\<lambda>tid.
       keyed tid c (\<lambda>k.
         (Returned, inStore (setTaskOverride k [''status'' \<mapsto> JStr ''running'']) c)))
     else if event = ''task.completed'' then
       reading data ''task_id'' c (\<lambda>tid.
       reading data ''output_summary'' c (\<lambda>summary.
       keyed tid c (\<lambda>k.
         (Returned,
          invalidateQueries [''action'', actionId]
            (inStore (setTaskOverride k
               [''status'' \<mapsto> JStr ''completed'', ''output_summary'' \<mapsto> summary]) c)))))
     else if event = ''task.failed'' then
       reading data ''task_id'' c (\<lambda>tid.
       reading data ''error'' c (\<lambda>err.
       keyed tid c (\<lambda>k.
         (Returned,
          inStore (setTaskOverride k
            [''status'' \<mapsto> JStr ''failed'', ''output_summary'' \<mapsto> err]) c))))
     else if event = ''log.append'' then
       reading data ''task_id'' c (\<lambda>tid.
       reading data ''level'' c (\<lambda>lv.
       reading data ''message'' c (\<lambda>msg.
         logging now tid \<lparr>level = lv, message = msg\<rparr> c)))
     else if event = ''action.completed'' then
       (Returned,
        invalidateQueries [''actions'']
          (invalidateQueries [''action'', actionId]
            (inStore (setRecoveryAttempt JNull) (inStore (setActionStatus (JStr ''completed'')) c))))
     else if event = ''action.failed'' then
       (Returned,
        invalidateQueries [''actions'']
          (invalidateQueries [''action'', actionId]
            (inStore (setRecoveryAttempt JNull) (inStore (setActionStatus (JStr ''failed'')) c))))
     else if event = ''action.started'' then
       (Returned, inStore (setActionStatus (JStr ''running'')) c)
     else if event = ''action.retrying'' then
       (let c1 = inStore (setActionStatus (JStr ''running'')) c in
        reading data ''attempt'' c1 (\<lambda>attempt.
          (Returned,
           invalidateQueries [''action'', actionId] (inStore (setRecoveryAttempt attempt) c1))))
     else if event = ''task.recovered'' then
       (Returned, invalidateQueries [''action'', actionId] c)
     else if event = ''code.started'' then
       reading data ''task_id'' c (\<lambda>tid.
       keyed tid c (\<lambda>k.
         (Returned,
          inStore (setCodeExecution k
            [''status'' \<mapsto> JStr ''running'', ''stdout'' \<mapsto> JStr [], ''stderr'' \<mapsto> JStr [],
             ''artifactIds'' \<mapsto> JArr []]) c)))
     else if event = ''code.completed'' then
       reading data ''task_id'' c (\<lambda>tid.
       reading data ''artifact_ids'' c (\<lambda>artifact_ids.
       reading data ''stdout_preview'' c (\<lambda>stdout_preview.
       keyed tid c (\<lambda>k.
         (Returned,
          invalidateQueries [''action'', actionId]
            (inStore (setCodeExecution k
               [''status'' \<mapsto> JStr ''completed'',
                ''artifactIds'' \<mapsto> js_or artifact_ids (JArr []),
                ''stdout'' \<mapsto> js_or stdout_preview (JStr [])]) c))))))
     else if event = ''code.failed'' then
       reading data ''task_id'' c (\<lambda>tid.
       reading data ''stderr'' c (\<lambda>stderr.
         if truthy stderr then
           keyed tid c (\<lambda>k.
             (Returned,
              inStore (setCodeExecution k
                [''status'' \<mapsto> JStr ''failed'', ''stderr'' \<mapsto> stderr]) c))
         else
           reading data ''error'' c (\<lambda>err.
           keyed tid c (\<lambda>k.
             (Returned,
              inStore (setCodeExecution k
                [''status'' \<mapsto> JStr ''failed'', ''stderr'' \<mapsto> js_or err (JStr [])]) c)))))
     else if event = ''code.log'' then
       reading data ''task_id'' c (\<lambda>tid.
       reading data ''level'' c (\<lambda>lv.
       reading data ''message'' c (\<lambda>msg.
         logging now tid \<lparr>level = lv, message = msg\<rparr> c)))
     else (Returned, c))"

text \<open>
  The handler passed to \<^verbatim>\<open>createSSEConnection\<close> by the subscription for \<open>actionId\<close>:
  events for a different action are ignored, otherwise the error counter is reset and
  the event is dispatched.
\<close>

definition onEvent :: "string \<Rightarrow> string \<Rightarrow> string \<Rightarrow> jsval \<Rightarrow> client \<Rightarrow> outcome \<times> client" where
  "onEvent actionId now event data c =
     (let currentId = currentActionId (store c) in
      if currentId \<noteq> [] \<and> currentId \<noteq> actionId then (Returned, c)
      else switchEvent actionId now event data (c\<lparr>errorCount := 0\<rparr>))"

section \<open>The SSE client (lib/sse.ts)\<close>

definition eventTypes :: "string list" where
  "eventTypes =
     [''snapshot'', ''task.started'', ''task.completed'', ''task.failed'', ''task.retrying'',
      ''log.append'', ''action.completed'', ''action.failed'', ''action.started'',
      ''code.started'', ''code.completed'', ''code.failed'', ''code.log'', ''ping'']"

text \<open>
  A named event arriving on the stream: its event name and the result of
  \<^verbatim>\<open>JSON.parse(e.data)\<close>, \<open>None\<close> when the body does not parse.
\<close>

record message_event =
  eventName :: string
  parsed :: "jsval option"

text \<open>
  \<^verbatim>\<open>createSSEConnection\<close> adds one listener per entry of \<^verbatim>\<open>eventTypes\<close>; the
  \<^verbatim>\<open>EventSource\<close> runs, for an arriving event, the listeners added for its name. A
  listener parses the body and calls the handler inside \<^verbatim>\<open>try\<close>/\<^verbatim>\<open>catch\<close>, so
  a parse error and a throw of the handler are both swallowed.
\<close>

definition listener :: "string \<Rightarrow> (string \<Rightarrow> jsval \<Rightarrow> client \<Rightarrow> outcome \<times> client) \<Rightarrow> message_event \<Rightarrow> client \<Rightarrow> client" where
  "listener type handler e c =
     (case parsed e of None \<Rightarrow> c | Some data \<Rightarrow> snd (handler type data c))"

definition createSSEConnection :: "(string \<Rightarrow> jsval \<Rightarrow> client \<Rightarrow> outcome \<times> client) \<Rightarrow> message_event \<Rightarrow> client \<Rightarrow> client" where
  "createSSEConnection handler e c =
     fold (\<lambda>type c'. listener type handler e c')
          (filter (\<lambda>type. type = eventName e) eventTypes) c"

text \<open>
  The subscription of \<^verbatim>\<open>useActionEvents(actionId, enabled)\<close>: the effect returns
  without opening a connection when \<^verbatim>\<open>!enabled || !actionId\<close>, and then no event
  arrives; with \<open>enabled\<close> and a non-empty \<open>actionId\<close> it opens the connection with the
  handler above.
\<close>

definition useActionEvents :: "string \<Rightarrow> bool \<Rightarrow> string \<Rightarrow> message_event \<Rightarrow> client \<Rightarrow> client" where
  "useActionEvents actionId enabled now e c =
     (if enabled \<and> actionId \<noteq> [] then createSSEConnection (onEvent actionId now) e c
      else c)"




section \<open>Dependency selection in the task dialogs\<close>

text \<open>
  \<^verbatim>\<open>toggleDep\<close> of \<^verbatim>\<open>AddTaskDialog\<close> and \<^verbatim>\<open>TaskCardEditor\<close>
  (both components define the same updater):
  \<^verbatim>\<open>prev.includes(taskId) ? prev.filter((id) => id !== taskId) : [...prev, taskId]\<close>
\<close>

definition toggleDep :: "string \<Rightarrow> string list \<Rightarrow> string list" where
  "toggleDep taskId prev =
     (if taskId \<in> set prev then filter (\<lambda>i. i \<noteq> taskId) prev else prev @ [taskId])"

section \<open>The task board (components/workspace/task-board.tsx)\<close>

text \<open>The \<^verbatim>\<open>Task\<close> interface of types/index.ts, as the board receives it from the API.\<close>

datatype task_status = Pending | Running | Completed | Failed

record task =
  task_id :: string
  action_id :: string
  prompt :: string
  status :: task_status
  agent_type :: string
  model :: "string option"
  dependencies :: "string list"
  output_summary :: "string option"
  created_at :: string
  updated_at :: string

text \<open>
  A tier number is a JavaScript number: a natural number, or \<^verbatim>\<open>-Infinity\<close>, which is
  what \<^verbatim>\<open>Math.max()\<close> of no arguments gives.
\<close>

datatype tier_num = NegInfinity | Fin nat

fun mathMax :: "tier_num list \<Rightarrow> tier_num" where
  "mathMax [] = NegInfinity"
| "mathMax (v # vs) =
     (case (v, mathMax vs) of
        (NegInfinity, w) \<Rightarrow> w
      | (Fin a, NegInfinity) \<Rightarrow> Fin a
      | (Fin a, Fin b) \<Rightarrow> Fin (max a b))"

fun plusOne :: "tier_num \<Rightarrow> tier_num" where
  "plusOne NegInfinity = NegInfinity"
| "plusOne (Fin n) = Fin (n + 1)"

text \<open>\<^verbatim>\<open>new Map(tasks.map((t) => [t.id, t]))\<close>: a later entry with the same id wins.\<close>

definition taskMapOf :: "task list \<Rightarrow> (string \<rightharpoonup> task)" where
  "taskMapOf tasks = fold (\<lambda>t m. m(task_id t \<mapsto> t)) tasks Map.empty"

text \<open>
  \<^verbatim>\<open>getTier\<close> recurses along the dependencies and memoises in \<^verbatim>\<open>tierOf\<close>, which
  it mutates; the model passes \<^verbatim>\<open>tierOf\<close> through. The first argument bounds the
  depth of the recursion: \<open>None\<close> is the recursion not returning within that depth, as
  on a dependency cycle. \<open>getTiers\<close> is the \<^verbatim>\<open>.map((d) => getTier(d))\<close> over the
  dependencies that are in the task map.
\<close>

fun getTier :: "nat \<Rightarrow> (string \<rightharpoonup> task) \<Rightarrow> string \<Rightarrow> (string \<rightharpoonup> tier_num)
                 \<Rightarrow> (tier_num \<times> (string \<rightharpoonup> tier_num)) option"
  and getTiers :: "nat \<Rightarrow> (string \<rightharpoonup> task) \<Rightarrow> string list \<Rightarrow> (string \<rightharpoonup> tier_num)
                 \<Rightarrow> (tier_num list \<times> (string \<rightharpoonup> tier_num)) option" where
  "getTier 0 taskMap i tierOf = None"
| "getTier (Suc n) taskMap i tierOf =
     (case tierOf i of
        Some v \<Rightarrow> Some (v, tierOf)
      | None \<Rightarrow>
         (case taskMap i of
            None \<Rightarrow> Some (Fin 0, tierOf(i \<mapsto> Fin 0))
          | Some t \<Rightarrow>
             if dependencies t = [] then Some (Fin 0, tierOf(i \<mapsto> Fin 0))
             else
               (case getTiers n taskMap (filter (\<lambda>d. taskMap d \<noteq> None) (dependencies t)) tierOf of
                  None \<Rightarrow> None
                | Some (vs, tierOf1) \<Rightarrow>
                    let tier = plusOne (mathMax vs) in Some (tier, tierOf1(i \<mapsto> tier)))))"
| "getTiers n taskMap [] tierOf = Some ([], tierOf)"
| "getTiers n taskMap (d # ds) tierOf =
     (case getTier n taskMap d tierOf of
        None \<Rightarrow> None
      | Some (v, tierOf1) \<Rightarrow>
         (case getTiers n taskMap ds tierOf1 of
            None \<Rightarrow> None
          | Some (vs, tierOf2) \<Rightarrow> Some (v # vs, tierOf2)))"

text \<open>The first loop, \<^verbatim>\<open>for (const task of tasks) getTier(task.id)\<close>.\<close>

fun tierLoop :: "nat \<Rightarrow> (string \<rightharpoonup> task) \<Rightarrow> task list \<Rightarrow> (string \<rightharpoonup> tier_num)
                  \<Rightarrow> (string \<rightharpoonup> tier_num) option" where
  "tierLoop n taskMap [] tierOf = Some tierOf"
| "tierLoop n taskMap (t # ts) tierOf =
     (case getTier n taskMap (task_id t) tierOf of
        None \<Rightarrow> None
      | Some (v, tierOf1) \<Rightarrow> tierLoop n taskMap ts tierOf1)"

text \<open>
  The second loop: \<^verbatim>\<open>tier = tierOf.get(task.id) || 0\<close>, the list of tiers grown
  with empty tiers up to index \<^verbatim>\<open>tier\<close>, and the task pushed onto
  \<^verbatim>\<open>tiers[tier]\<close>. For \<^verbatim>\<open>-Infinity\<close> nothing is grown and
  \<^verbatim>\<open>tiers[-Infinity]\<close> is \<^verbatim>\<open>undefined\<close>, so the push throws.
\<close>

fun placeLoop :: "(string \<rightharpoonup> tier_num) \<Rightarrow> task list \<Rightarrow> task list list \<Rightarrow> js_error + task list list" where
  "placeLoop tierOf [] tiers = Inr tiers"
| "placeLoop tierOf (t # ts) tiers =
     (case (case tierOf (task_id t) of None \<Rightarrow> Fin 0 | Some v \<Rightarrow> v) of
        NegInfinity \<Rightarrow> Inl TypeError
      | Fin tier \<Rightarrow>
         (let tiers1 = tiers @ replicate (Suc tier - length tiers) []
          in placeLoop tierOf ts (tiers1[tier := tiers1 ! tier @ [t]])))"

definition computeTiers :: "nat \<Rightarrow> task list \<Rightarrow> (js_error + task list list) option" where
  "computeTiers n tasks =
     (case tierLoop n (taskMapOf tasks) tasks Map.empty of
        None \<Rightarrow> None
      | Some tierOf \<Rightarrow> Some (placeLoop tierOf tasks []))"

text \<open>\<^verbatim>\<open>buildIndexMap\<close>: the running index over the tiers in order.\<close>

definition buildIndexMap :: "task list list \<Rightarrow> (string \<rightharpoonup> nat)" where
  "buildIndexMap tiers =
     fst (fold (\<lambda>t (m, idx). (m(task_id t \<mapsto> idx), idx + 1)) (concat tiers) (Map.empty, 0))"

section \<open>The task graph invariant\<close>

text \<open>
  The invariant of the data model: task identifiers are unique, every dependency
  identifier is the id of a task of the list (dependency-closed), and the dependency
  relation, the pairs (dependency, dependent), is acyclic.
\<close>

definition depRel :: "task list \<Rightarrow> (string \<times> string) set" where
  "depRel tasks = {(d, task_id t) | d t. t \<in> set tasks \<and> d \<in> set (dependencies t)}"

definition dependencyClosed :: "task list \<Rightarrow> bool" where
  "dependencyClosed tasks \<longleftrightarrow>
     (\<forall>t\<in>set tasks. \<forall>d\<in>set (dependencies t). d \<in> task_id ` set tasks)"

definition wellFormedGraph :: "task list \<Rightarrow> bool" where
  "wellFormedGraph tasks \<longleftrightarrow>
     distinct (map task_id tasks) \<and> dependencyClosed tasks \<and> acyclic (depRel tasks)"

text \<open>
  The tier assignment in the words of C5, as a relation between a task id and its tier:
  a task without dependencies has tier 0; a task with dependencies, all of them tasks of
  the map, has tier \<open>1 + m\<close> where \<open>m\<close> is the maximum tier of its dependencies.
\<close>

inductive tierSpec :: "(string \<rightharpoonup> task) \<Rightarrow> string \<Rightarrow> nat \<Rightarrow> bool" for taskMap where
  root: "taskMap i = Some t \<Longrightarrow> dependencies t = [] \<Longrightarrow> tierSpec taskMap i 0"
| step: "taskMap i = Some t \<Longrightarrow> dependencies t \<noteq> [] \<Longrightarrow>
         \<forall>d\<in>set (dependencies t). taskMap d \<noteq> None \<and> (\<exists>k\<le>m. tierSpec taskMap d k) \<Longrightarrow>
         \<exists>d\<in>set (dependencies t). tierSpec taskMap d m \<Longrightarrow>
         tierSpec taskMap i (Suc m)"

text \<open>Invariants used in the proofs about \<^verbatim>\<open>computeTiers\<close>.\<close>

definition memoOk :: "(string \<rightharpoonup> task) \<Rightarrow> (string \<rightharpoonup> tier_num) \<Rightarrow> bool" where
  "memoOk taskMap tierOf \<longleftrightarrow>
     (\<forall>j w. tierOf j = Some w \<longrightarrow> (\<exists>u. w = Fin u \<and> tierSpec taskMap j u))"

definition runsOk :: "(string \<rightharpoonup> task) \<Rightarrow> string \<Rightarrow> nat \<Rightarrow> bool" where
  "runsOk tm d k \<longleftrightarrow>
     (\<forall>n tf. k < n \<longrightarrow> memoOk tm tf \<longrightarrow>
        (\<exists>tf'. getTier n tm d tf = Some (Fin k, tf') \<and> memoOk tm tf' \<and> tf \<subseteq>\<^sub>m tf'
               \<and> tf' d = Some (Fin k)))"

definition slot :: "task list list \<Rightarrow> nat \<Rightarrow> task list" where
  "slot tiers k = (if k < length tiers then tiers ! k else [])"

abbreviation exampleTask :: "string \<Rightarrow> string list \<Rightarrow> task" where
  "exampleTask i ds \<equiv>
     \<lparr>task_id = i, action_id = ''a1'', prompt = ''p'', status = Pending, agent_type = ''general'',
      model = None, dependencies = ds, output_summary = None,
      created_at = ''2026-01-01T00:00:00Z'', updated_at = ''2026-01-01T00:00:00Z''\<rparr>"

section \<open>The mutation engine (server side)\<close>

text \<open>
  The task editor saves through \<^verbatim>\<open>PATCH /actions/:id/tasks/:taskId\<close> and tells the
  user that saving resets the task and all downstream tasks to pending. The server code
  behind that endpoint is not among the sources verified here; the definitions of this
  section follow the specification of the graph store and of the mutation engine.
\<close>

text \<open>
  Modelled from the spec: the \<^verbatim>\<open>TaskOutput\<close> of the data model, a short summary and
  references to artifacts; the server's type is missing.
\<close>

record task_output =
  out_summary :: string
  out_artifacts :: "string list"

text \<open>
  Modelled from the spec: the \<^verbatim>\<open>Artifact\<close> record (id, owning task, mime type,
  storage path, size); the server's type is missing.
\<close>

record artifact =
  art_id :: string
  art_task :: string
  art_mime_type :: "string option"
  art_storage_path :: "string option"
  art_size_bytes :: "nat option"

text \<open>
  Modelled from the spec: the persistent state of one action in the graph store, which
  is missing: its tasks, the output attached to each task, the outputs detached (not
  deleted) by invalidation, and the artifacts by id.
\<close>

record graph_store =
  store_tasks :: "task list"
  store_outputs :: "string \<rightharpoonup> task_output"
  store_detached :: "(string \<times> task_output) list"
  store_artifacts :: "string \<rightharpoonup> artifact"

text \<open>
  Modelled from the spec: the patch of \<^verbatim>\<open>update_task(task_id, {prompt?, agent_type?,
  model?, dependencies?})\<close>; the server's type is missing.
\<close>

record task_patch =
  patch_prompt :: "string option"
  patch_agent_type :: "string option"
  patch_model :: "string option option"
  patch_dependencies :: "string list option"

text \<open>
  Modelled from the spec: the ways an edit is refused (a task that does not exist, a
  patch whose graph is not valid); the server's error type is missing.
\<close>

datatype edit_error = TaskNotFound | ValidationError

text \<open>
  Modelled from the spec: \<^verbatim>\<open>dependents(task_id)\<close> of the graph store, the tasks that
  list the task among their dependencies; the server's query is missing.
\<close>

definition dependents :: "task list \<Rightarrow> string \<Rightarrow> string list" where
  "dependents ts i = map task_id (filter (\<lambda>t. i \<in> set (dependencies t)) ts)"

text \<open>
  Modelled from the spec: the downstream traversal behind
  \<^verbatim>\<open>transitive_dependents(task_id)\<close>, which is missing: a worklist of task ids to
  visit and the tasks not yet discovered; visiting an id moves its dependents among the
  undiscovered tasks to the end of the worklist.
\<close>

function collect :: "task list \<Rightarrow> string list \<Rightarrow> string list" where
  "collect rest [] = []"
| "collect rest (x # todo) =
     x # collect (filter (\<lambda>t. x \<notin> set (dependencies t)) rest) (todo @ dependents rest x)"
  by pat_completeness auto

termination
proof (relation "measure (\<lambda>(rest, todo). 2 * length rest + length todo)")
  show "wf (measure (\<lambda>(rest, todo). 2 * length rest + length todo))"
    by simp
next
  fix rest :: "task list" and x :: string and todo :: "string list"
  have "length (filter (\<lambda>t. x \<notin> set (dependencies t)) rest)
          + length (filter (\<lambda>t. x \<in> set (dependencies t)) rest) = length rest"
    using sum_length_filter_compl [of "\<lambda>t. x \<in> set (dependencies t)" rest] by simp
  then show "((filter (\<lambda>t. x \<notin> set (dependencies t)) rest, todo @ dependents rest x), rest, x # todo)
         \<in> measure (\<lambda>(rest, todo). 2 * length rest + length todo)"
    by (simp add: dependents_def)
qed

text \<open>
  Modelled from the spec: \<^verbatim>\<open>transitive_dependents(task_id)\<close>, missing from the
  sources.
\<close>

definition transitive_dependents :: "task list \<Rightarrow> string \<Rightarrow> string list" where
  "transitive_dependents ts i =
     collect (filter (\<lambda>t. i \<notin> set (dependencies t)) ts) (dependents ts i)"

text \<open>
  Modelled from the spec: the invalidation set
  \<^verbatim>\<open>{task_id} \<union> transitive_dependents(task_id)\<close> of step 3 of Edit, missing
  from the sources.
\<close>

definition invalidation_set :: "task list \<Rightarrow> string \<Rightarrow> string list" where
  "invalidation_set ts i = i # transitive_dependents ts i"

text \<open>
  Modelled from the spec: the validation of \<^verbatim>\<open>update_task\<close>, missing from the
  sources: every dependency is a task of the action and no task is among its own
  transitive dependents.
\<close>

definition valid_graph :: "task list \<Rightarrow> bool" where
  "valid_graph ts \<longleftrightarrow>
     (\<forall>t\<in>set ts. \<forall>d\<in>set (dependencies t). d \<in> task_id ` set ts)
     \<and> (\<forall>t\<in>set ts. task_id t \<notin> set (transitive_dependents ts (task_id t)))"

text \<open>
  Modelled from the spec: applying a patch to a task, missing from the sources; a field
  the patch does not carry is kept.
\<close>

definition apply_patch :: "task_patch \<Rightarrow> task \<Rightarrow> task" where
  "apply_patch p t =
     t\<lparr>prompt := (case patch_prompt p of None \<Rightarrow> prompt t | Some v \<Rightarrow> v),
       agent_type := (case patch_agent_type p of None \<Rightarrow> agent_type t | Some v \<Rightarrow> v),
       model := (case patch_model p of None \<Rightarrow> model t | Some v \<Rightarrow> v),
       dependencies := (case patch_dependencies p of None \<Rightarrow> dependencies t | Some v \<Rightarrow> v)\<rparr>"

text \<open>
  Modelled from the spec: \<^verbatim>\<open>update_task\<close> of the graph store, missing from the
  sources: it applies the patch and rejects it if the resulting graph is not valid.
\<close>

definition update_task :: "string \<Rightarrow> task_patch \<Rightarrow> graph_store \<Rightarrow> edit_error + graph_store" where
  "update_task i p s =
     (if i \<notin> task_id ` set (store_tasks s) then Inl TaskNotFound
      else
        (let ts = map (\<lambda>t. if task_id t = i then apply_patch p t else t) (store_tasks s)
         in if valid_graph ts then Inr (s\<lparr>store_tasks := ts\<rparr>) else Inl ValidationError))"

text \<open>
  Modelled from the spec: \<^verbatim>\<open>reset_tasks([task_ids])\<close> of the graph store, missing
  from the sources: status \<^verbatim>\<open>pending\<close>, summary cleared, outputs detached and kept.
\<close>

definition reset_tasks :: "string list \<Rightarrow> graph_store \<Rightarrow> graph_store" where
  "reset_tasks ids s =
     s\<lparr>store_tasks :=
         map (\<lambda>t. if task_id t \<in> set ids then t\<lparr>status := Pending, output_summary := None\<rparr> else t)
             (store_tasks s),
       store_outputs := (\<lambda>i. if i \<in> set ids then None else store_outputs s i),
       store_detached := store_detached s
         @ concat (map (\<lambda>i. case store_outputs s i of None \<Rightarrow> [] | Some ob \<Rightarrow> [(i, ob)])
                       (remdups ids))\<rparr>"

text \<open>
  Modelled from the spec: \<^verbatim>\<open>Edit(task_id, patch)\<close> of the mutation engine, missing
  from the sources: apply and validate the patch, compute the invalidation set, signal
  cancellation to its running tasks (the ids are returned), reset the set.
\<close>

definition edit :: "string \<Rightarrow> task_patch \<Rightarrow> graph_store \<Rightarrow> edit_error + (graph_store \<times> string list)" where
  "edit i p s =
     (case update_task i p s of
        Inl e \<Rightarrow> Inl e
      | Inr s1 \<Rightarrow>
         (let inval = invalidation_set (store_tasks s1) i;
              cancelled = filter (\<lambda>j. \<exists>t\<in>set (store_tasks s1). task_id t = j \<and> status t = Running)
                                 (remdups inval)
          in Inr (reset_tasks inval s1, cancelled)))"

abbreviation exampleStore :: graph_store where
  "exampleStore \<equiv>
     \<lparr>store_tasks =
        [(exampleTask ''t1'' [])\<lparr>status := Completed, output_summary := Some ''one''\<rparr>,
         (exampleTask ''t2'' [''t1''])\<lparr>status := Running\<rparr>,
         (exampleTask ''t3'' [''t2''])\<lparr>status := Completed, output_summary := Some ''three''\<rparr>],
      store_outputs = [''t1'' \<mapsto> \<lparr>out_summary = ''one'', out_artifacts = [''art1'']\<rparr>,
                       ''t3'' \<mapsto> \<lparr>out_summary = ''three'', out_artifacts = []\<rparr>],
      store_detached = [],
      store_artifacts = Map.empty\<rparr>"

abbreviation examplePatch :: task_patch where
  "examplePatch \<equiv>
     \<lparr>patch_prompt = Some ''new prompt'', patch_agent_type = None, patch_model = None,
      patch_dependencies = None\<rparr>"

section \<open>Properties of the action store\<close>

lemma setTaskOverride_same:
  "taskOverrides (setTaskOverride k ov s) k = Some (spread (taskOverrides s k) ++ ov)"
  by (simp add: setTaskOverride_def)

lemma setTaskOverride_other:
  "k' \<noteq> k \<Longrightarrow> taskOverrides (setTaskOverride k ov s) k' = taskOverrides s k'"
  by (simp add: setTaskOverride_def)

lemma setTaskOverride_frame:
  "actionStatus (setTaskOverride k ov s) = actionStatus s"
  "recoveryAttempt (setTaskOverride k ov s) = recoveryAttempt s"
  "taskLogs (setTaskOverride k ov s) = taskLogs s"
  "codeExecutions (setTaskOverride k ov s) = codeExecutions s"
  "currentActionId (setTaskOverride k ov s) = currentActionId s"
  by (simp_all add: setTaskOverride_def)

text \<open>
  C8, as stated, at the task id \<^verbatim>\<open>constructor\<close> on the initial store: the lookup
  finds the inherited member, the update throws, and no log list is produced for that
  id.
\<close>

theorem appendTaskLog_counterexample:
  "appendTaskLog ''2026-01-01T00:00:01.000Z'' ''constructor''
     \<lparr>level = JStr ''info'', message = JStr ''first''\<rparr> initialStore = Inl TypeError"
  by (simp add: appendTaskLog_def initialStore_def objectPrototypeMembers_def)

text \<open>
  C8, amended. For every task id that does not name a member of
  \<^verbatim>\<open>Object.prototype\<close>, and every log entry, \<^verbatim>\<open>appendTaskLog\<close> returns a state
  in which that task's log list is the previous list (empty when the task had none)
  with the one new entry, stamped with the clock reading, appended at the end; the log
  lists of all other tasks and every other store field are unchanged.
\<close>

theorem appendTaskLog_appends:
  assumes "taskId \<notin> set objectPrototypeMembers"
  shows "\<exists>s'. appendTaskLog now taskId lg s = Inr s'
     \<and> taskLogs s' taskId
         = Some ((case taskLogs s taskId of None \<Rightarrow> [] | Some ls \<Rightarrow> ls)
                 @ [\<lparr>level = level lg, message = message lg, timestamp = now\<rparr>])
     \<and> (\<forall>k. k \<noteq> taskId \<longrightarrow> taskLogs s' k = taskLogs s k)
     \<and> taskOverrides s' = taskOverrides s
     \<and> actionStatus s' = actionStatus s
     \<and> recoveryAttempt s' = recoveryAttempt s
     \<and> codeExecutions s' = codeExecutions s
     \<and> currentActionId s' = currentActionId s"
  using assms
  by (cases "taskLogs s taskId") (simp_all add: appendTaskLog_def log_input.extend_def)

theorem appendTaskLog_appends_witness:
  "''t1'' \<notin> set objectPrototypeMembers
   \<and> (\<exists>s1 s2.
        appendTaskLog ''2026-01-01T00:00:01.000Z'' ''t1''
          \<lparr>level = JStr ''info'', message = JStr ''first''\<rparr> initialStore = Inr s1
      \<and> appendTaskLog ''2026-01-01T00:00:02.000Z'' ''t1''
          \<lparr>level = JStr ''warn'', message = JStr ''second''\<rparr> s1 = Inr s2
      \<and> taskLogs s2 ''t1''
          = Some [\<lparr>level = JStr ''info'', message = JStr ''first'',
                    timestamp = ''2026-01-01T00:00:01.000Z''\<rparr>,
                  \<lparr>level = JStr ''warn'', message = JStr ''second'',
                    timestamp = ''2026-01-01T00:00:02.000Z''\<rparr>]
      \<and> taskLogs s2 ''t2'' = None)"
proof -
  have t1: "''t1'' \<notin> set objectPrototypeMembers"
    by (simp add: objectPrototypeMembers_def)
  from appendTaskLog_appends [OF t1, of "''2026-01-01T00:00:01.000Z''"
      "\<lparr>level = JStr ''info'', message = JStr ''first''\<rparr>" initialStore]
  obtain s1 where s1: "appendTaskLog ''2026-01-01T00:00:01.000Z'' ''t1''
          \<lparr>level = JStr ''info'', message = JStr ''first''\<rparr> initialStore = Inr s1"
      "taskLogs s1 ''t1'' = Some [\<lparr>level = JStr ''info'', message = JStr ''first'',
                    timestamp = ''2026-01-01T00:00:01.000Z''\<rparr>]"
      "\<forall>k. k \<noteq> ''t1'' \<longrightarrow> taskLogs s1 k = taskLogs initialStore k"
    by (auto simp: initialStore_def)
  from appendTaskLog_appends [OF t1, of "''2026-01-01T00:00:02.000Z''"
      "\<lparr>level = JStr ''warn'', message = JStr ''second''\<rparr>" s1]
  obtain s2 where s2: "appendTaskLog ''2026-01-01T00:00:02.000Z'' ''t1''
          \<lparr>level = JStr ''warn'', message = JStr ''second''\<rparr> s1 = Inr s2"
      "taskLogs s2 ''t1'' = Some [\<lparr>level = JStr ''info'', message = JStr ''first'',
                    timestamp = ''2026-01-01T00:00:01.000Z''\<rparr>,
                  \<lparr>level = JStr ''warn'', message = JStr ''second'',
                    timestamp = ''2026-01-01T00:00:02.000Z''\<rparr>]"
      "\<forall>k. k \<noteq> ''t1'' \<longrightarrow> taskLogs s2 k = taskLogs s1 k"
    using s1(2) by auto
  have "taskLogs s2 ''t2'' = None"
    using s2(3) s1(3) by (simp add: initialStore_def)
  with t1 s1(1) s2(1,2) show ?thesis by blast
qed

section \<open>Properties of the event handler\<close>

lemma inStore_simps:
  "store (inStore f c) = f (store c)"
  "errorCount (inStore f c) = errorCount c"
  "invalidated (inStore f c) = invalidated c"
  by (simp_all add: inStore_def)


lemma getProp_field: "getProp v k = Inr x \<Longrightarrow> field v k = x"
  by (simp add: field_def)

lemma getProp_any: "getProp v k = Inr x \<Longrightarrow> getProp v k' = Inr (field v k')"
  by (cases v) (simp_all add: field_def)

lemma keyed_string: "keyed (JStr k) c f = f k"
  by (simp add: keyed_def)

lemma onEvent_pass:
  "currentActionId (store c) = [] \<or> currentActionId (store c) = actionId \<Longrightarrow>
   onEvent actionId now event data c = switchEvent actionId now event data (c\<lparr>errorCount := 0\<rparr>)"
  by (auto simp: onEvent_def Let_def)

lemma listener_ignored:
  "currentActionId (store c) \<noteq> [] \<Longrightarrow> currentActionId (store c) \<noteq> actionId \<Longrightarrow>
   listener type (onEvent actionId now) e c = c"
  by (simp add: listener_def onEvent_def split: option.splits)

text \<open>
  C10. While the store's \<^verbatim>\<open>currentActionId\<close> is non-empty and differs from the action
  id of the subscription, the handler returns the client state it was given, for every
  event name and payload: the store (and with it the overlay of the viewed action) is
  unchanged, both for the handler itself and for an event delivered through the SSE
  connection of the subscription, enabled or not.
\<close>

theorem other_action_events_ignored:
  assumes "currentActionId (store c) \<noteq> []" and "currentActionId (store c) \<noteq> actionId"
  shows "onEvent actionId now event data c = (Returned, c)
         \<and> useActionEvents actionId enabled now e c = c"
proof -
  have "fold (\<lambda>type c'. listener type (onEvent actionId now) e c') ts c = c" for ts
    using assms by (induction ts) (simp_all add: listener_ignored)
  then show ?thesis
    using assms by (simp add: onEvent_def useActionEvents_def createSSEConnection_def)
qed

theorem other_action_events_ignored_witness:
  "onEvent ''a1'' ''2026-01-01T00:00:00.000Z'' ''task.started'' (JObj [(''task_id'', JStr ''t1'')])
     \<lparr>store = initialStore\<lparr>currentActionId := ''a2''\<rparr>, errorCount = 2, invalidated = []\<rparr>
   = (Returned,
      \<lparr>store = initialStore\<lparr>currentActionId := ''a2''\<rparr>, errorCount = 2, invalidated = []\<rparr>)"
  using other_action_events_ignored
    [of "\<lparr>store = initialStore\<lparr>currentActionId := ''a2''\<rparr>, errorCount = 2, invalidated = []\<rparr>"
        "''a1''"]
  by (simp add: initialStore_def)




lemma snapshotLoop_step:
  "getProp t ''id'' = Inr (JStr k) \<Longrightarrow>
   snapshotLoop (t # ts) c
     = snapshotLoop ts (inStore (setTaskOverride k (snapshotOverride t)) c)"
  by (simp add: reading_def getProp_any keyed_string snapshotOverride_def)

lemma stringId_key:
  "\<exists>k. getProp t ''id'' = Inr (JStr k) \<Longrightarrow> getProp t ''id'' = Inr (JStr (taskKey t))"
  by (auto simp: taskKey_def field_def stringOf_def)

lemma snapshotLoop_frame:
  "\<forall>t\<in>set ts. \<exists>k. getProp t ''id'' = Inr (JStr k) \<Longrightarrow>
   fst (snapshotLoop ts c) = Returned
   \<and> errorCount (snd (snapshotLoop ts c)) = errorCount c
   \<and> invalidated (snd (snapshotLoop ts c)) = invalidated c
   \<and> actionStatus (store (snd (snapshotLoop ts c))) = actionStatus (store c)
   \<and> recoveryAttempt (store (snd (snapshotLoop ts c))) = recoveryAttempt (store c)
   \<and> taskLogs (store (snd (snapshotLoop ts c))) = taskLogs (store c)
   \<and> codeExecutions (store (snd (snapshotLoop ts c))) = codeExecutions (store c)
   \<and> currentActionId (store (snd (snapshotLoop ts c))) = currentActionId (store c)"
proof (induction ts arbitrary: c)
  case Nil
  then show ?case by simp
next
  case (Cons t ts)
  have step: "snapshotLoop (t # ts) c
     = snapshotLoop ts (inStore (setTaskOverride (taskKey t) (snapshotOverride t)) c)"
    using Cons.prems by (intro snapshotLoop_step stringId_key) simp
  show ?case
    unfolding step using Cons by (simp add: inStore_simps setTaskOverride_frame)
qed

lemma snapshotLoop_other:
  "\<forall>t\<in>set ts. \<exists>k. getProp t ''id'' = Inr (JStr k) \<Longrightarrow> k \<notin> taskKey ` set ts \<Longrightarrow>
   taskOverrides (store (snd (snapshotLoop ts c))) k = taskOverrides (store c) k"
proof (induction ts arbitrary: c)
  case Nil
  then show ?case by simp
next
  case (Cons t ts)
  have step: "snapshotLoop (t # ts) c
     = snapshotLoop ts (inStore (setTaskOverride (taskKey t) (snapshotOverride t)) c)"
    using Cons.prems by (intro snapshotLoop_step stringId_key) simp
  show ?case
    unfolding step using Cons by (simp add: inStore_simps setTaskOverride_other)
qed

lemma snapshotLoop_stored:
  "\<forall>t\<in>set ts. \<exists>k. getProp t ''id'' = Inr (JStr k) \<Longrightarrow> distinct (map taskKey ts) \<Longrightarrow>
   t \<in> set ts \<Longrightarrow>
   taskOverrides (store (snd (snapshotLoop ts c))) (taskKey t)
     = Some (spread (taskOverrides (store c) (taskKey t)) ++ snapshotOverride t)"
proof (induction ts arbitrary: c)
  case Nil
  then show ?case by simp
next
  case (Cons u ts)
  let ?c1 = "inStore (setTaskOverride (taskKey u) (snapshotOverride u)) c"
  have step: "snapshotLoop (u # ts) c = snapshotLoop ts ?c1"
    using Cons.prems(1) by (intro snapshotLoop_step stringId_key) simp
  have rest: "\<forall>t\<in>set ts. \<exists>k. getProp t ''id'' = Inr (JStr k)"
    using Cons.prems(1) by simp
  show ?case
  proof (cases "t = u")
    case True
    have "taskKey u \<notin> taskKey ` set ts"
      using Cons.prems(2) by auto
    with rest have "taskOverrides (store (snd (snapshotLoop ts ?c1))) (taskKey u)
                 = taskOverrides (store ?c1) (taskKey u)"
      by (rule snapshotLoop_other)
    then show ?thesis
      unfolding step True by (simp add: inStore_simps setTaskOverride_same)
  next
    case False
    then have t: "t \<in> set ts"
      using Cons.prems(3) by simp
    then have neq: "taskKey t \<noteq> taskKey u"
      using Cons.prems(2) by (auto simp: image_iff)
    have "distinct (map taskKey ts)"
      using Cons.prems(2) by simp
    with rest have "taskOverrides (store (snd (snapshotLoop ts ?c1))) (taskKey t)
            = Some (spread (taskOverrides (store ?c1) (taskKey t)) ++ snapshotOverride t)"
      using t by (rule Cons.IH)
    then show ?thesis
      unfolding step using neq by (simp add: inStore_simps setTaskOverride_other)
  qed
qed

text \<open>
  C4, as stated, at a subscription for action \<open>a1\<close> while the store views action \<open>a2\<close>:
  the handler receives a snapshot listing task \<open>t1\<close> as completed, with status
  \<open>running\<close>; the overlay stores nothing for \<open>t1\<close> and the action status stays
  \<^verbatim>\<open>null\<close>.
\<close>

theorem snapshot_counterexample:
  "taskOverrides (store (snd
     (onEvent ''a1'' ''2026-01-01T00:00:00.000Z'' ''snapshot''
        (JObj [(''tasks'', JArr [JObj [(''id'', JStr ''t1''), (''status'', JStr ''completed''),
                                       (''output_summary'', JStr ''done'')]]),
               (''status'', JStr ''running'')])
        \<lparr>store = initialStore\<lparr>currentActionId := ''a2''\<rparr>, errorCount = 0,
          invalidated = []\<rparr>))) ''t1'' = None
   \<and> actionStatus (store (snd
     (onEvent ''a1'' ''2026-01-01T00:00:00.000Z'' ''snapshot''
        (JObj [(''tasks'', JArr [JObj [(''id'', JStr ''t1''), (''status'', JStr ''completed''),
                                       (''output_summary'', JStr ''done'')]]),
               (''status'', JStr ''running'')])
        \<lparr>store = initialStore\<lparr>currentActionId := ''a2''\<rparr>, errorCount = 0,
          invalidated = []\<rparr>))) = JNull"
  by (simp add: onEvent_def initialStore_def)

text \<open>
  C4, amended. Whenever the store's \<^verbatim>\<open>currentActionId\<close> is empty or equals the action
  id of the subscription, and the payload's \<^verbatim>\<open>tasks\<close> is a list of tasks whose ids
  are strings and pairwise distinct: for every task of the list the override stored
  under its id is the previous override merged with the task's \<^verbatim>\<open>status\<close> and
  \<^verbatim>\<open>output_summary\<close> (the object \<open>snapshotOverride t\<close>); the action status becomes
  the payload's \<^verbatim>\<open>status\<close> if that is truthy (a non-empty string, for one) and is
  unchanged otherwise; and the override of every id that is not in the list is
  unchanged.
\<close>

theorem snapshot_recorded:
  assumes guard: "currentActionId (store c) = [] \<or> currentActionId (store c) = actionId"
    and tasks: "getProp data ''tasks'' = Inr (JArr ts)"
    and elems: "\<forall>t\<in>set ts. \<exists>k. getProp t ''id'' = Inr (JStr k)"
    and ids: "distinct (map taskKey ts)"
  shows "(\<forall>t\<in>set ts.
           taskOverrides (store (snd (onEvent actionId now ''snapshot'' data c))) (taskKey t)
             = Some (spread (taskOverrides (store c) (taskKey t)) ++ snapshotOverride t))
       \<and> actionStatus (store (snd (onEvent actionId now ''snapshot'' data c)))
           = (if truthy (field data ''status'') then field data ''status''
              else actionStatus (store c))
       \<and> (\<forall>k. k \<notin> taskKey ` set ts \<longrightarrow>
           taskOverrides (store (snd (onEvent actionId now ''snapshot'' data c))) k
             = taskOverrides (store c) k)"
proof -
  let ?c0 = "c\<lparr>errorCount := 0\<rparr>"
  note fr = snapshotLoop_frame [OF elems, of ?c0]
  obtain c1 where loop: "snapshotLoop ts ?c0 = (Returned, c1)"
    using fr by (cases "snapshotLoop ts ?c0") simp
  have c1: "c1 = snd (snapshotLoop ts ?c0)"
    using loop by simp
  have ev: "onEvent actionId now ''snapshot'' data c
            = (Returned, if truthy (field data ''status'')
                         then inStore (setActionStatus (field data ''status'')) c1 else c1)"
    unfolding onEvent_pass [OF guard] switchEvent_def
    by (simp add: reading_def getProp_any [OF tasks] getProp_field [OF tasks] loop)
  have ov: "taskOverrides (store (snd (onEvent actionId now ''snapshot'' data c)))
            = taskOverrides (store c1)"
    unfolding ev by (simp add: inStore_simps setActionStatus_def)
  have stored: "\<forall>t\<in>set ts.
           taskOverrides (store (snd (onEvent actionId now ''snapshot'' data c))) (taskKey t)
             = Some (spread (taskOverrides (store c) (taskKey t)) ++ snapshotOverride t)"
    unfolding ov c1 using snapshotLoop_stored [OF elems ids, of _ ?c0] by simp
  have status: "actionStatus (store (snd (onEvent actionId now ''snapshot'' data c)))
           = (if truthy (field data ''status'') then field data ''status''
              else actionStatus (store c))"
    unfolding ev c1 using fr by (simp add: inStore_simps setActionStatus_def)
  have others: "\<forall>k. k \<notin> taskKey ` set ts \<longrightarrow>
           taskOverrides (store (snd (onEvent actionId now ''snapshot'' data c))) k
             = taskOverrides (store c) k"
    unfolding ov c1 using snapshotLoop_other [OF elems, of _ ?c0] by simp
  from stored status others show ?thesis by blast
qed

theorem snapshot_recorded_witness:
  "taskOverrides (store (snd
     (onEvent ''a1'' ''2026-01-01T00:00:00.000Z'' ''snapshot''
        (JObj [(''tasks'', JArr [JObj [(''id'', JStr ''t1''), (''status'', JStr ''completed''),
                                       (''output_summary'', JStr ''done'')],
                                 JObj [(''id'', JStr ''t2''), (''status'', JStr ''pending''),
                                       (''output_summary'', JNull)]]),
               (''status'', JStr ''running'')])
        \<lparr>store = initialStore\<lparr>currentActionId := ''a1''\<rparr>, errorCount = 0,
          invalidated = []\<rparr>))) ''t2''
     = Some [''status'' \<mapsto> JStr ''pending'', ''output_summary'' \<mapsto> JNull]
   \<and> actionStatus (store (snd
     (onEvent ''a1'' ''2026-01-01T00:00:00.000Z'' ''snapshot''
        (JObj [(''tasks'', JArr [JObj [(''id'', JStr ''t1''), (''status'', JStr ''completed''),
                                       (''output_summary'', JStr ''done'')],
                                 JObj [(''id'', JStr ''t2''), (''status'', JStr ''pending''),
                                       (''output_summary'', JNull)]]),
               (''status'', JStr ''running'')])
        \<lparr>store = initialStore\<lparr>currentActionId := ''a1''\<rparr>, errorCount = 0,
          invalidated = []\<rparr>))) = JStr ''running''"
  using snapshot_recorded
    [of "\<lparr>store = initialStore\<lparr>currentActionId := ''a1''\<rparr>, errorCount = 0, invalidated = []\<rparr>"
        "''a1''"
        "JObj [(''tasks'', JArr [JObj [(''id'', JStr ''t1''), (''status'', JStr ''completed''),
                                       (''output_summary'', JStr ''done'')],
                                 JObj [(''id'', JStr ''t2''), (''status'', JStr ''pending''),
                                       (''output_summary'', JNull)]]),
               (''status'', JStr ''running'')]"
        "[JObj [(''id'', JStr ''t1''), (''status'', JStr ''completed''),
                (''output_summary'', JStr ''done'')],
          JObj [(''id'', JStr ''t2''), (''status'', JStr ''pending''),
                (''output_summary'', JNull)]]"
        "''2026-01-01T00:00:00.000Z''"]
  by (simp add: initialStore_def field_def spread_def taskKey_def stringOf_def snapshotOverride_def)

text \<open>
  C2 on the code: a \<^verbatim>\<open>task.retrying\<close> event for the viewed action reaches the
  handler, which has no case for it; the store is the same after attempt 2 and after
  attempt 3 as before, and the connection only resets the error counter.
\<close>

theorem task_retrying_not_recorded:
  "store (snd
     (onEvent ''a1'' ''2026-01-01T00:00:00.000Z'' ''task.retrying''
        (JObj [(''task_id'', JStr ''t1''), (''attempt'', JNum ''2''), (''max_attempts'', JNum ''3'')])
        \<lparr>store = initialStore\<lparr>currentActionId := ''a1''\<rparr>, errorCount = 1,
          invalidated = []\<rparr>))
     = initialStore\<lparr>currentActionId := ''a1''\<rparr>
   \<and> store (snd
     (onEvent ''a1'' ''2026-01-01T00:00:00.000Z'' ''task.retrying''
        (JObj [(''task_id'', JStr ''t1''), (''attempt'', JNum ''3''), (''max_attempts'', JNum ''3'')])
        \<lparr>store = initialStore\<lparr>currentActionId := ''a1''\<rparr>, errorCount = 1,
          invalidated = []\<rparr>))
     = initialStore\<lparr>currentActionId := ''a1''\<rparr>
   \<and> useActionEvents ''a1'' True ''2026-01-01T00:00:00.000Z''
        \<lparr>eventName = ''task.retrying'',
          parsed = Some (JObj [(''task_id'', JStr ''t1''), (''attempt'', JNum ''2''),
                               (''max_attempts'', JNum ''3'')])\<rparr>
        \<lparr>store = initialStore\<lparr>currentActionId := ''a1''\<rparr>, errorCount = 1,
          invalidated = []\<rparr>
     = \<lparr>store = initialStore\<lparr>currentActionId := ''a1''\<rparr>, errorCount = 0, invalidated = []\<rparr>"
  by (simp add: useActionEvents_def createSSEConnection_def eventTypes_def listener_def
      onEvent_def switchEvent_def initialStore_def Let_def)

section \<open>Properties of the SSE client\<close>

text \<open>
  C1 on the code: \<^verbatim>\<open>action.retrying\<close> and \<^verbatim>\<open>task.recovered\<close> are not in
  \<^verbatim>\<open>eventTypes\<close>, so no listener is added for them. An \<^verbatim>\<open>action.retrying\<close>
  event arriving on the stream leaves the client as it was, although the handler, called
  with it, would record the attempt; a \<^verbatim>\<open>task.recovered\<close> event leaves the client as
  it was, although the handler would ask for a refetch of the action.
\<close>

theorem unregistered_events_dropped:
  "useActionEvents ''a1'' True ''2026-01-01T00:00:00.000Z''
        \<lparr>eventName = ''action.retrying'',
          parsed = Some (JObj [(''action_id'', JStr ''a1''), (''attempt'', JNum ''2'')])\<rparr>
        \<lparr>store = initialStore\<lparr>currentActionId := ''a1''\<rparr>, errorCount = 0,
          invalidated = []\<rparr>
     = \<lparr>store = initialStore\<lparr>currentActionId := ''a1''\<rparr>, errorCount = 0, invalidated = []\<rparr>
   \<and> recoveryAttempt (store (snd
       (onEvent ''a1'' ''2026-01-01T00:00:00.000Z'' ''action.retrying''
          (JObj [(''action_id'', JStr ''a1''), (''attempt'', JNum ''2'')])
          \<lparr>store = initialStore\<lparr>currentActionId := ''a1''\<rparr>, errorCount = 0,
            invalidated = []\<rparr>))) = JNum ''2''
   \<and> useActionEvents ''a1'' True ''2026-01-01T00:00:00.000Z''
        \<lparr>eventName = ''task.recovered'', parsed = Some (JObj [(''task_id'', JStr ''t1'')])\<rparr>
        \<lparr>store = initialStore\<lparr>currentActionId := ''a1''\<rparr>, errorCount = 0,
          invalidated = []\<rparr>
     = \<lparr>store = initialStore\<lparr>currentActionId := ''a1''\<rparr>, errorCount = 0, invalidated = []\<rparr>
   \<and> invalidated (snd
       (onEvent ''a1'' ''2026-01-01T00:00:00.000Z'' ''task.recovered''
          (JObj [(''task_id'', JStr ''t1'')])
          \<lparr>store = initialStore\<lparr>currentActionId := ''a1''\<rparr>, errorCount = 0,
            invalidated = []\<rparr>)) = [[''action'', ''a1'']]"
  by (simp add: useActionEvents_def createSSEConnection_def eventTypes_def listener_def
      onEvent_def switchEvent_def reading_def inStore_def invalidateQueries_def
      setActionStatus_def setRecoveryAttempt_def initialStore_def Let_def)

section \<open>Properties of the task board\<close>

lemma tierSpec_det:
  "tierSpec tm i v \<Longrightarrow> tierSpec tm i w \<Longrightarrow> v = w"
proof (induction arbitrary: w rule: tierSpec.induct)
  case (root i t)
  from root.prems root.hyps show ?case
    by (cases rule: tierSpec.cases) auto
next
  case (step i t m)
  from step.prems show ?case
  proof (cases rule: tierSpec.cases)
    case (root t')
    with step.hyps show ?thesis by simp
  next
    case (step t' m')
    then have t': "t' = t" using step.hyps by simp
    obtain d0 where d0: "d0 \<in> set (dependencies t)" "tierSpec tm d0 m"
      "\<And>w. tierSpec tm d0 w \<Longrightarrow> m = w"
      using step.IH(2) by blast
    obtain k where "k \<le> m'" "tierSpec tm d0 k"
      using step(4) d0(1) t' by blast
    with d0(3) have le1: "m \<le> m'" by auto
    obtain d1 where d1: "d1 \<in> set (dependencies t)" "tierSpec tm d1 m'"
      using step(5) t' by blast
    obtain k' where k': "k' \<le> m" "tierSpec tm d1 k'" "\<And>w. tierSpec tm d1 w \<Longrightarrow> k' = w"
      using step.IH(1) d1(1) by blast
    from k'(3) [OF d1(2)] k'(1) have "m' \<le> m" by simp
    with le1 step(1) show ?thesis by simp
  qed
qed

lemma mathMax_Cons_Fin:
  "mathMax vs = Fin b \<Longrightarrow> mathMax (Fin a # vs) = Fin (max a b)"
  "vs = [] \<Longrightarrow> mathMax (Fin a # vs) = Fin a"
  by simp_all

lemma mathMax_bound:
  "\<forall>v\<in>set vs. \<exists>k\<le>m. v = Fin k \<Longrightarrow> vs \<noteq> [] \<Longrightarrow> \<exists>k\<le>m. mathMax vs = Fin k"
proof (induction vs)
  case Nil
  then show ?case by simp
next
  case (Cons v vs)
  obtain a where a: "v = Fin a" "a \<le> m"
    using Cons.prems(1) by auto
  show ?case
  proof (cases "vs = []")
    case True
    then have "mathMax (v # vs) = Fin a"
      unfolding a(1) by (rule mathMax_Cons_Fin(2))
    with a(2) show ?thesis by blast
  next
    case False
    have "\<forall>v\<in>set vs. \<exists>k\<le>m. v = Fin k"
      using Cons.prems(1) by simp
    from Cons.IH [OF this False] obtain b where b: "b \<le> m" "mathMax vs = Fin b"
      by blast
    have "mathMax (v # vs) = Fin (max a b)"
      unfolding a(1) using b(2) by (rule mathMax_Cons_Fin(1))
    moreover have "max a b \<le> m"
      using a(2) b(1) by simp
    ultimately show ?thesis by blast
  qed
qed

lemma mathMax_attained:
  "\<forall>v\<in>set vs. \<exists>k\<le>m. v = Fin k \<Longrightarrow> Fin m \<in> set vs \<Longrightarrow> mathMax vs = Fin m"
proof (induction vs)
  case Nil
  then show ?case by simp
next
  case (Cons v vs)
  obtain a where a: "v = Fin a" "a \<le> m"
    using Cons.prems(1) by auto
  have rest: "\<forall>v\<in>set vs. \<exists>k\<le>m. v = Fin k"
    using Cons.prems(1) by simp
  show ?case
  proof (cases "vs = []")
    case True
    with Cons.prems(2) a(1) have "a = m" by simp
    moreover have "mathMax (v # vs) = Fin a"
      unfolding a(1) using True by (rule mathMax_Cons_Fin(2))
    ultimately show ?thesis by simp
  next
    case False
    from mathMax_bound [OF rest False] obtain b where b: "b \<le> m" "mathMax vs = Fin b"
      by blast
    have mx: "mathMax (v # vs) = Fin (max a b)"
      unfolding a(1) using b(2) by (rule mathMax_Cons_Fin(1))
    have "a = m \<or> b = m"
    proof (cases "Fin m \<in> set vs")
      case True
      from Cons.IH [OF rest True] b(2) show ?thesis by simp
    next
      case False
      with Cons.prems(2) a(1) show ?thesis by simp
    qed
    then have "max a b = m"
      using a(2) b(1) by auto
    with mx show ?thesis by simp
  qed
qed

lemma map_le_fresh:
  "tf \<subseteq>\<^sub>m tf' \<Longrightarrow> tf i = None \<Longrightarrow> tf \<subseteq>\<^sub>m tf'(i \<mapsto> v)"
  unfolding map_le_def by (auto simp: domIff)

lemma memoOk_update:
  "memoOk tm tf \<Longrightarrow> tierSpec tm i v \<Longrightarrow> memoOk tm (tf(i \<mapsto> Fin v))"
  unfolding memoOk_def by simp

lemma runsOkD:
  "runsOk tm d k \<Longrightarrow> k < n \<Longrightarrow> memoOk tm tf \<Longrightarrow>
   \<exists>tf'. getTier n tm d tf = Some (Fin k, tf') \<and> memoOk tm tf' \<and> tf \<subseteq>\<^sub>m tf' \<and> tf' d = Some (Fin k)"
  unfolding runsOk_def by blast

lemma getTiers_ok:
  assumes each: "\<forall>d\<in>set ds. \<exists>k\<le>m. tierSpec tm d k \<and> runsOk tm d k"
    and n: "m < n" and ok: "memoOk tm tf"
  shows "\<exists>vs tf'. getTiers n tm ds tf = Some (vs, tf') \<and> memoOk tm tf' \<and> tf \<subseteq>\<^sub>m tf'
           \<and> list_all2 (\<lambda>d v. \<exists>k\<le>m. v = Fin k \<and> tierSpec tm d k) ds vs"
  using each ok
proof (induction ds arbitrary: tf)
  case Nil
  then show ?case by simp
next
  case (Cons d ds)
  obtain k where k: "k \<le> m" "tierSpec tm d k" and run: "runsOk tm d k"
    using Cons.prems(1) by auto
  from k(1) n have "k < n" by simp
  from runsOkD [OF run this Cons.prems(2)]
  obtain tf1 where tf1: "getTier n tm d tf = Some (Fin k, tf1)" "memoOk tm tf1" "tf \<subseteq>\<^sub>m tf1"
    by blast
  have rest: "\<forall>d\<in>set ds. \<exists>k\<le>m. tierSpec tm d k \<and> runsOk tm d k"
    using Cons.prems(1) by simp
  from Cons.IH [OF rest tf1(2)]
  obtain vs tf2 where r: "getTiers n tm ds tf1 = Some (vs, tf2)" "memoOk tm tf2" "tf1 \<subseteq>\<^sub>m tf2"
      "list_all2 (\<lambda>d v. \<exists>k\<le>m. v = Fin k \<and> tierSpec tm d k) ds vs"
    by blast
  have le: "tf \<subseteq>\<^sub>m tf2" using tf1(3) r(3) by (rule map_le_trans)
  have run2: "getTiers n tm (d # ds) tf = Some (Fin k # vs, tf2)"
    using tf1(1) r(1) by simp
  have all2: "list_all2 (\<lambda>d v. \<exists>k\<le>m. v = Fin k \<and> tierSpec tm d k) (d # ds) (Fin k # vs)"
    using r(4) k by simp
  from run2 r(2) le all2 show ?case by blast
qed

lemma list_all2_bound:
  "list_all2 (\<lambda>d v. \<exists>k\<le>m. v = Fin k \<and> tierSpec tm d k) ds vs \<Longrightarrow>
   \<forall>v\<in>set vs. \<exists>k\<le>(m::nat). v = Fin k"
  by (induction ds vs rule: list_all2_induct) auto

lemma list_all2_member:
  "list_all2 (\<lambda>d v. \<exists>k\<le>m. v = Fin k \<and> tierSpec tm d k) ds vs \<Longrightarrow> d0 \<in> set ds \<Longrightarrow>
   \<exists>k. Fin k \<in> set vs \<and> tierSpec tm d0 k"
  by (induction ds vs rule: list_all2_induct) auto

lemma getTier_hit:
  "tf i = Some w \<Longrightarrow> getTier (Suc n) tm i tf = Some (w, tf)"
  by simp

lemma getTier_root:
  "tf i = None \<Longrightarrow> tm i = Some t \<Longrightarrow> dependencies t = [] \<Longrightarrow>
   getTier (Suc n) tm i tf = Some (Fin 0, tf(i \<mapsto> Fin 0))"
  by simp

lemma getTier_step:
  "tf i = None \<Longrightarrow> tm i = Some t \<Longrightarrow> dependencies t \<noteq> [] \<Longrightarrow>
   \<forall>d\<in>set (dependencies t). tm d \<noteq> None \<Longrightarrow>
   getTiers n tm (dependencies t) tf = Some (vs, tf1) \<Longrightarrow>
   getTier (Suc n) tm i tf = Some (plusOne (mathMax vs), tf1(i \<mapsto> plusOne (mathMax vs)))"
proof -
  assume a: "tf i = None" "tm i = Some t" "dependencies t \<noteq> []"
    "\<forall>d\<in>set (dependencies t). tm d \<noteq> None"
    "getTiers n tm (dependencies t) tf = Some (vs, tf1)"
  have "filter (\<lambda>d. tm d \<noteq> None) (dependencies t) = dependencies t"
    using a(4) by (simp add: filter_id_conv)
  then show ?thesis
    using a(1,2,3,5) by (simp add: Let_def)
qed

lemma getTier_ok: "tierSpec tm i v \<Longrightarrow> runsOk tm i v"
proof (induction rule: tierSpec.induct)
  case (root i t)
  have spec: "tierSpec tm i 0"
    using root by (rule tierSpec.root [of tm i t])
  show ?case
    unfolding runsOk_def
  proof (intro allI impI)
    fix n :: nat and tf :: "string \<rightharpoonup> tier_num"
    assume n: "0 < n" and ok: "memoOk tm tf"
    obtain n' where n': "n = Suc n'"
      using n by (cases n) auto
    show "\<exists>tf'. getTier n tm i tf = Some (Fin 0, tf') \<and> memoOk tm tf' \<and> tf \<subseteq>\<^sub>m tf'
             \<and> tf' i = Some (Fin 0)"
    proof (cases "tf i")
      case None
      have "getTier n tm i tf = Some (Fin 0, tf(i \<mapsto> Fin 0))"
        unfolding n' using None root by (rule getTier_root)
      moreover have "tf \<subseteq>\<^sub>m tf(i \<mapsto> Fin 0)"
        using None by (intro map_le_fresh) simp_all
      moreover have "memoOk tm (tf(i \<mapsto> Fin 0))"
        using ok spec by (rule memoOk_update)
      ultimately show ?thesis by simp
    next
      case (Some w)
      then obtain u where "w = Fin u" "tierSpec tm i u"
        using ok unfolding memoOk_def by blast
      with spec have "w = Fin 0"
        using tierSpec_det by blast
      with Some have "getTier n tm i tf = Some (Fin 0, tf)" "tf i = Some (Fin 0)"
        unfolding n' by simp_all
      with ok show ?thesis by simp
    qed
  qed
next
  case (step i t m)
  have deps_ok: "\<forall>d\<in>set (dependencies t). tm d \<noteq> None \<and> (\<exists>k\<le>m. tierSpec tm d k)"
    using step.IH(1) by blast
  have deps_in: "\<forall>d\<in>set (dependencies t). tm d \<noteq> None"
    using step.IH(1) by blast
  have deps_run: "\<forall>d\<in>set (dependencies t). \<exists>k\<le>m. tierSpec tm d k \<and> runsOk tm d k"
    using step.IH(1) by blast
  obtain d0 where d0: "d0 \<in> set (dependencies t)" "tierSpec tm d0 m"
    using step.IH(2) by blast
  then have deps_max: "\<exists>d\<in>set (dependencies t). tierSpec tm d m"
    by blast
  have spec: "tierSpec tm i (Suc m)"
    using step.hyps(1,2) deps_ok deps_max by (rule tierSpec.step [of tm i t m])
  show ?case
    unfolding runsOk_def
  proof (intro allI impI)
    fix n :: nat and tf :: "string \<rightharpoonup> tier_num"
    assume n: "Suc m < n" and ok: "memoOk tm tf"
    obtain n' where n': "n = Suc n'" "m < n'"
      using n by (cases n) auto
    show "\<exists>tf'. getTier n tm i tf = Some (Fin (Suc m), tf') \<and> memoOk tm tf' \<and> tf \<subseteq>\<^sub>m tf'
             \<and> tf' i = Some (Fin (Suc m))"
    proof (cases "tf i")
      case (Some w)
      then obtain u where "w = Fin u" "tierSpec tm i u"
        using ok unfolding memoOk_def by blast
      with spec have "w = Fin (Suc m)"
        using tierSpec_det by blast
      with Some have "getTier n tm i tf = Some (Fin (Suc m), tf)" "tf i = Some (Fin (Suc m))"
        unfolding n'(1) by simp_all
      with ok show ?thesis by simp
    next
      case None
      from getTiers_ok [OF deps_run n'(2) ok]
      obtain vs tf1 where r: "getTiers n' tm (dependencies t) tf = Some (vs, tf1)"
          "memoOk tm tf1" "tf \<subseteq>\<^sub>m tf1"
          "list_all2 (\<lambda>d v. \<exists>k\<le>m. v = Fin k \<and> tierSpec tm d k) (dependencies t) vs"
        by blast
      have bound: "\<forall>v\<in>set vs. \<exists>k\<le>m. v = Fin k"
        using r(4) by (rule list_all2_bound)
      obtain k where k: "Fin k \<in> set vs" "tierSpec tm d0 k"
        using list_all2_member [OF r(4) d0(1)] by blast
      with d0(2) have "k = m"
        using tierSpec_det by blast
      with k(1) have "Fin m \<in> set vs" by simp
      with bound have mx: "mathMax vs = Fin m"
        by (rule mathMax_attained)
      have run: "getTier n tm i tf = Some (Fin (Suc m), tf1(i \<mapsto> Fin (Suc m)))"
        unfolding n'(1) using getTier_step [OF None step.hyps(1,2) deps_in r(1)] mx by simp
      have "tf \<subseteq>\<^sub>m tf1(i \<mapsto> Fin (Suc m))"
        using r(3) None by (rule map_le_fresh)
      moreover have "memoOk tm (tf1(i \<mapsto> Fin (Suc m)))"
        using r(2) spec by (rule memoOk_update)
      ultimately show ?thesis
        using run by simp
    qed
  qed
qed

lemma fold_taskMap_other:
  "i \<notin> task_id ` set ts \<Longrightarrow> fold (\<lambda>t m. m(task_id t \<mapsto> t)) ts m i = m i"
  by (induction ts arbitrary: m) auto

lemma fold_taskMap_in:
  "distinct (map task_id ts) \<Longrightarrow> t \<in> set ts \<Longrightarrow>
   fold (\<lambda>t m. m(task_id t \<mapsto> t)) ts m (task_id t) = Some t"
proof (induction ts arbitrary: m)
  case Nil
  then show ?case by simp
next
  case (Cons u ts)
  have step: "fold (\<lambda>t m. m(task_id t \<mapsto> t)) (u # ts) m
                = fold (\<lambda>t m. m(task_id t \<mapsto> t)) ts (m(task_id u \<mapsto> u))"
    by simp
  show ?case
  proof (cases "t \<in> set ts")
    case True
    with Cons.prems(1) have "fold (\<lambda>t m. m(task_id t \<mapsto> t)) ts (m(task_id u \<mapsto> u)) (task_id t) = Some t"
      by (intro Cons.IH) simp_all
    then show ?thesis unfolding step .
  next
    case False
    with Cons.prems(2) have tu: "t = u" by simp
    have "task_id u \<notin> task_id ` set ts"
      using Cons.prems(1) by auto
    then have "fold (\<lambda>t m. m(task_id t \<mapsto> t)) ts (m(task_id u \<mapsto> u)) (task_id u)
                 = (m(task_id u \<mapsto> u)) (task_id u)"
      by (rule fold_taskMap_other)
    then show ?thesis unfolding step tu by simp
  qed
qed

lemma fold_taskMap_Some:
  "fold (\<lambda>t m. m(task_id t \<mapsto> t)) ts m i = Some t \<Longrightarrow>
   m i = Some t \<or> (t \<in> set ts \<and> task_id t = i)"
proof (induction ts arbitrary: m)
  case Nil
  then show ?case by simp
next
  case (Cons u ts)
  from Cons.IH [of "m(task_id u \<mapsto> u)"] Cons.prems
  show ?case by (auto split: if_splits)
qed

lemma taskMapOf_in:
  "distinct (map task_id tasks) \<Longrightarrow> t \<in> set tasks \<Longrightarrow> taskMapOf tasks (task_id t) = Some t"
  unfolding taskMapOf_def by (rule fold_taskMap_in)

lemma fold_taskMap_dom:
  "i \<in> task_id ` set ts \<or> m i \<noteq> None \<Longrightarrow>
   fold (\<lambda>t m. m(task_id t \<mapsto> t)) ts m i \<noteq> None"
proof (induction ts arbitrary: m)
  case Nil
  then show ?case by simp
next
  case (Cons u ts)
  have step: "fold (\<lambda>t m. m(task_id t \<mapsto> t)) (u # ts) m
                = fold (\<lambda>t m. m(task_id t \<mapsto> t)) ts (m(task_id u \<mapsto> u))"
    by simp
  have "i \<in> task_id ` set ts \<or> (m(task_id u \<mapsto> u)) i \<noteq> None"
    using Cons.prems by auto
  then show ?case
    unfolding step by (rule Cons.IH)
qed

lemma taskMapOf_dom:
  "i \<in> task_id ` set tasks \<Longrightarrow> \<exists>t. taskMapOf tasks i = Some t"
  unfolding taskMapOf_def using fold_taskMap_dom [of i tasks Map.empty] by simp

lemma taskMapOf_Some:
  "taskMapOf tasks i = Some t \<Longrightarrow> t \<in> set tasks \<and> task_id t = i"
  unfolding taskMapOf_def using fold_taskMap_Some [of tasks Map.empty i t] by simp

lemma finite_depRel: "finite (depRel tasks)"
proof -
  have "depRel tasks \<subseteq> (\<Union>t\<in>set tasks. set (dependencies t)) \<times> task_id ` set tasks"
    unfolding depRel_def by auto
  moreover have "finite ((\<Union>t\<in>set tasks. set (dependencies t)) \<times> task_id ` set tasks)"
    by simp
  ultimately show ?thesis by (rule finite_subset)
qed

lemma tierSpec_exists:
  assumes closed: "dependencyClosed tasks" and acyc: "acyclic (depRel tasks)"
  shows "i \<in> task_id ` set tasks \<Longrightarrow> \<exists>v. tierSpec (taskMapOf tasks) i v"
proof -
  let ?tm = "taskMapOf tasks"
  have wfr: "wf (depRel tasks)"
    using finite_depRel acyc by (rule finite_acyclic_wf)
  have "i \<in> task_id ` set tasks \<longrightarrow> (\<exists>v. tierSpec ?tm i v)" for i
    using wfr
  proof (induction i rule: wf_induct_rule)
    case (less i)
    show ?case
    proof
      assume "i \<in> task_id ` set tasks"
      then obtain t where tm: "?tm i = Some t"
        using taskMapOf_dom by blast
      have t: "t \<in> set tasks" "task_id t = i"
        using taskMapOf_Some [OF tm] by simp_all
      show "\<exists>v. tierSpec ?tm i v"
      proof (cases "dependencies t = []")
        case True
        with tm have "tierSpec ?tm i 0" by (rule tierSpec.root [of ?tm i t])
        then show ?thesis ..
      next
        case False
        have each: "\<forall>d\<in>set (dependencies t). ?tm d \<noteq> None \<and> (\<exists>v. tierSpec ?tm d v)"
        proof
          fix d assume d: "d \<in> set (dependencies t)"
          then have rel: "(d, i) \<in> depRel tasks"
            using t unfolding depRel_def by auto
          have dom: "d \<in> task_id ` set tasks"
            using closed t(1) d unfolding dependencyClosed_def by blast
          then have "?tm d \<noteq> None"
            using taskMapOf_dom by fastforce
          moreover have "\<exists>v. tierSpec ?tm d v"
            using less.IH [OF rel] dom by blast
          ultimately show "?tm d \<noteq> None \<and> (\<exists>v. tierSpec ?tm d v)" by simp
        qed
        then have "\<forall>d\<in>set (dependencies t). \<exists>v. tierSpec ?tm d v" by blast
        then obtain f where f: "\<forall>d\<in>set (dependencies t). tierSpec ?tm d (f d)"
          by (rule bchoice [THEN exE])
        let ?m = "Max (f ` set (dependencies t))"
        have fin: "finite (f ` set (dependencies t))" by simp
        have ne: "f ` set (dependencies t) \<noteq> {}" using False by simp
        have le: "\<forall>d\<in>set (dependencies t). f d \<le> ?m"
          using fin by (auto intro: Max_ge)
        have "?m \<in> f ` set (dependencies t)"
          using fin ne by (rule Max_in)
        then obtain d0 where d0: "d0 \<in> set (dependencies t)" "f d0 = ?m" by auto
        have p1: "\<forall>d\<in>set (dependencies t). ?tm d \<noteq> None \<and> (\<exists>k\<le>?m. tierSpec ?tm d k)"
          using each f le by blast
        have p2: "\<exists>d\<in>set (dependencies t). tierSpec ?tm d ?m"
          using d0 f by metis
        from tm False p1 p2 have "tierSpec ?tm i (Suc ?m)"
          by (rule tierSpec.step [of ?tm i t ?m])
        then show ?thesis ..
      qed
    qed
  qed
  then show "i \<in> task_id ` set tasks \<Longrightarrow> \<exists>v. tierSpec (taskMapOf tasks) i v"
    by blast
qed

lemma tierSpec_bound:
  assumes acyc: "acyclic (depRel tasks)"
  shows "tierSpec (taskMapOf tasks) i v \<Longrightarrow> v \<le> card {j. (j, i) \<in> (depRel tasks)\<^sup>+}"
proof (induction rule: tierSpec.induct)
  case (root i t)
  then show ?case by simp
next
  case (step i t m)
  obtain d where d: "d \<in> set (dependencies t)" "m \<le> card {j. (j, d) \<in> (depRel tasks)\<^sup>+}"
    using step.IH(2) by blast
  have t: "t \<in> set tasks" "task_id t = i"
    using taskMapOf_Some [OF step.hyps(1)] by simp_all
  have rel: "(d, i) \<in> depRel tasks"
    using d(1) t unfolding depRel_def by auto
  have fin: "finite {j. (j, i) \<in> (depRel tasks)\<^sup>+}"
  proof (rule finite_subset)
    show "{j. (j, i) \<in> (depRel tasks)\<^sup>+} \<subseteq> fst ` (depRel tasks)\<^sup>+"
      by force
    show "finite (fst ` (depRel tasks)\<^sup>+)"
      using finite_depRel by simp
  qed
  have notin: "d \<notin> {j. (j, d) \<in> (depRel tasks)\<^sup>+}"
    using acyc unfolding acyclic_def by simp
  have sub: "insert d {j. (j, d) \<in> (depRel tasks)\<^sup>+} \<subseteq> {j. (j, i) \<in> (depRel tasks)\<^sup>+}"
    using rel by (auto intro: trancl_into_trancl)
  have "finite {j. (j, d) \<in> (depRel tasks)\<^sup>+}"
    using fin sub by (meson finite_subset subset_insertI order_trans)
  then have "card (insert d {j. (j, d) \<in> (depRel tasks)\<^sup>+}) = Suc (card {j. (j, d) \<in> (depRel tasks)\<^sup>+})"
    using notin by (rule card_insert_disjoint)
  moreover have "card (insert d {j. (j, d) \<in> (depRel tasks)\<^sup>+}) \<le> card {j. (j, i) \<in> (depRel tasks)\<^sup>+}"
    using fin sub by (rule card_mono)
  ultimately show ?case
    using d(2) by simp
qed

lemma tierSpec_less_length:
  assumes closed: "dependencyClosed tasks" and acyc: "acyclic (depRel tasks)"
    and spec: "tierSpec (taskMapOf tasks) i v"
  shows "v < length tasks"
proof -
  have "\<exists>t. taskMapOf tasks i = Some t"
    using spec by (cases rule: tierSpec.cases) auto
  then have i: "i \<in> task_id ` set tasks"
    using taskMapOf_Some by force
  have dom: "j \<in> task_id ` set tasks" if "(j, i) \<in> (depRel tasks)\<^sup>+" for j
  proof -
    from that obtain z where "(j, z) \<in> depRel tasks"
      by (meson tranclD)
    then show ?thesis
      using closed unfolding depRel_def dependencyClosed_def by auto
  qed
  have "i \<notin> {j. (j, i) \<in> (depRel tasks)\<^sup>+}"
    using acyc unfolding acyclic_def by simp
  with i dom have "{j. (j, i) \<in> (depRel tasks)\<^sup>+} \<subset> task_id ` set tasks"
    by blast
  then have "card {j. (j, i) \<in> (depRel tasks)\<^sup>+} < card (task_id ` set tasks)"
    by (intro psubset_card_mono) simp_all
  also have "\<dots> \<le> length tasks"
    by (metis card_image_le card_length le_trans List.finite_set)
  finally show ?thesis
    using tierSpec_bound [OF acyc spec] by simp
qed

lemma tierLoop_ok:
  assumes "\<forall>t\<in>set ts. \<exists>v<n. tierSpec tm (task_id t) v" and "memoOk tm tf"
  shows "\<exists>tf'. tierLoop n tm ts tf = Some tf' \<and> memoOk tm tf' \<and> tf \<subseteq>\<^sub>m tf'
           \<and> (\<forall>t\<in>set ts. \<exists>v. tf' (task_id t) = Some (Fin v))"
  using assms
proof (induction ts arbitrary: tf)
  case Nil
  then show ?case by simp
next
  case (Cons t ts)
  obtain v where v: "v < n" "tierSpec tm (task_id t) v"
    using Cons.prems(1) by auto
  from runsOkD [OF getTier_ok [OF v(2)] v(1) Cons.prems(2)]
  obtain tf1 where tf1: "getTier n tm (task_id t) tf = Some (Fin v, tf1)" "memoOk tm tf1"
      "tf \<subseteq>\<^sub>m tf1" "tf1 (task_id t) = Some (Fin v)"
    by blast
  have rest: "\<forall>t\<in>set ts. \<exists>v<n. tierSpec tm (task_id t) v"
    using Cons.prems(1) by simp
  from Cons.IH [OF rest tf1(2)]
  obtain tf2 where tf2: "tierLoop n tm ts tf1 = Some tf2" "memoOk tm tf2" "tf1 \<subseteq>\<^sub>m tf2"
      "\<forall>t\<in>set ts. \<exists>v. tf2 (task_id t) = Some (Fin v)"
    by blast
  have run: "tierLoop n tm (t # ts) tf = Some tf2"
    using tf1(1) tf2(1) by simp
  have le: "tf \<subseteq>\<^sub>m tf2"
    using tf1(3) tf2(3) by (rule map_le_trans)
  have "tf2 (task_id t) = Some (Fin v)"
    using tf1(4) tf2(3) by (metis domI map_le_def)
  with tf2(4) have "\<forall>u\<in>set (t # ts). \<exists>v. tf2 (task_id u) = Some (Fin v)"
    by simp
  with run tf2(2) le show ?case by blast
qed

lemma slot_place:
  "slot ((tiers @ replicate (Suc v - length tiers) [])
           [v := (tiers @ replicate (Suc v - length tiers) []) ! v @ [t]]) k
   = slot tiers k @ (if k = v then [t] else [])"
  by (auto simp: slot_def nth_append nth_list_update)

lemma length_place:
  "length ((tiers @ replicate (Suc v - length tiers) [])
           [v := (tiers @ replicate (Suc v - length tiers) []) ! v @ [t]])
   = max (length tiers) (Suc v)"
  by auto

lemma placeLoop_ok:
  assumes "\<forall>t\<in>set ts. \<exists>v. tf (task_id t) = Some (Fin v)"
  shows "\<exists>tiers'. placeLoop tf ts tiers = Inr tiers' \<and> length tiers \<le> length tiers'
           \<and> (\<forall>t\<in>set ts. \<forall>v. tf (task_id t) = Some (Fin v) \<longrightarrow> v < length tiers')
           \<and> (\<forall>k. slot tiers' k = slot tiers k @ filter (\<lambda>t. tf (task_id t) = Some (Fin k)) ts)"
  using assms
proof (induction ts arbitrary: tiers)
  case Nil
  then show ?case by simp
next
  case (Cons t ts)
  obtain v where v: "tf (task_id t) = Some (Fin v)"
    using Cons.prems by auto
  let ?tiers1 = "tiers @ replicate (Suc v - length tiers) []"
  let ?tiers2 = "?tiers1[v := ?tiers1 ! v @ [t]]"
  have run: "placeLoop tf (t # ts) tiers = placeLoop tf ts ?tiers2"
    using v by (simp add: Let_def)
  have rest: "\<forall>t\<in>set ts. \<exists>v. tf (task_id t) = Some (Fin v)"
    using Cons.prems by simp
  from Cons.IH [OF rest, of ?tiers2]
  obtain tiers' where r: "placeLoop tf ts ?tiers2 = Inr tiers'" "length ?tiers2 \<le> length tiers'"
      "\<forall>t\<in>set ts. \<forall>v. tf (task_id t) = Some (Fin v) \<longrightarrow> v < length tiers'"
      "\<forall>k. slot tiers' k = slot ?tiers2 k @ filter (\<lambda>t. tf (task_id t) = Some (Fin k)) ts"
    by blast
  have len2: "length ?tiers2 = max (length tiers) (Suc v)"
    by (rule length_place)
  have a: "length tiers \<le> length tiers'"
    using r(2) len2 by simp
  have "v < length tiers'"
    using r(2) len2 by simp
  then have b: "\<forall>u\<in>set (t # ts). \<forall>w. tf (task_id u) = Some (Fin w) \<longrightarrow> w < length tiers'"
    using r(3) v by simp
  have c: "\<forall>k. slot tiers' k = slot tiers k @ filter (\<lambda>t. tf (task_id t) = Some (Fin k)) (t # ts)"
  proof
    fix k
    have "slot tiers' k = slot ?tiers2 k @ filter (\<lambda>t. tf (task_id t) = Some (Fin k)) ts"
      using r(4) by blast
    also have "slot ?tiers2 k = slot tiers k @ (if k = v then [t] else [])"
      by (rule slot_place)
    finally show "slot tiers' k = slot tiers k @ filter (\<lambda>t. tf (task_id t) = Some (Fin k)) (t # ts)"
      using v by auto
  qed
  show ?case
  proof (intro exI conjI)
    show "placeLoop tf (t # ts) tiers = Inr tiers'"
      using run r(1) by simp
    show "length tiers \<le> length tiers'"
      by (rule a)
    show "\<forall>u\<in>set (t # ts). \<forall>w. tf (task_id u) = Some (Fin w) \<longrightarrow> w < length tiers'"
      by (rule b)
    show "\<forall>k. slot tiers' k = slot tiers k @ filter (\<lambda>t. tf (task_id t) = Some (Fin k)) (t # ts)"
      by (rule c)
  qed
qed

lemma mset_concat_update:
  "k < length xs \<Longrightarrow> mset (concat (xs[k := xs ! k @ [t]])) = mset (concat xs) + {#t#}"
proof (induction xs arbitrary: k)
  case Nil
  then show ?case by simp
next
  case (Cons x xs)
  then show ?case by (cases k) simp_all
qed

lemma placeLoop_mset:
  "placeLoop tf ts tiers = Inr tiers' \<Longrightarrow> mset (concat tiers') = mset (concat tiers) + mset ts"
proof (induction ts arbitrary: tiers)
  case Nil
  then show ?case by simp
next
  case (Cons t ts)
  from Cons.prems obtain v where v: "(case tf (task_id t) of None \<Rightarrow> Fin 0 | Some v \<Rightarrow> v) = Fin v"
    by (cases "case tf (task_id t) of None \<Rightarrow> Fin 0 | Some v \<Rightarrow> v") simp_all
  let ?tiers1 = "tiers @ replicate (Suc v - length tiers) []"
  let ?tiers2 = "?tiers1[v := ?tiers1 ! v @ [t]]"
  have run: "placeLoop tf (t # ts) tiers = placeLoop tf ts ?tiers2"
    using v by (simp add: Let_def)
  with Cons.prems have "placeLoop tf ts ?tiers2 = Inr tiers'" by simp
  from Cons.IH [OF this] have "mset (concat tiers') = mset (concat ?tiers2) + mset ts" .
  moreover have "v < length ?tiers1" by auto
  then have "mset (concat ?tiers2) = mset (concat ?tiers1) + {#t#}"
    by (rule mset_concat_update)
  moreover have "concat ?tiers1 = concat tiers" by simp
  ultimately show ?case by simp
qed

lemma indexFold_other:
  "i \<notin> task_id ` set zs \<Longrightarrow>
   fst (fold (\<lambda>t (m, idx). (m(task_id t \<mapsto> idx), idx + 1)) zs (m, n)) i = m i"
  by (induction zs arbitrary: m n) auto

lemma indexFold_nth:
  "distinct (map task_id zs) \<Longrightarrow> p < length zs \<Longrightarrow>
   fst (fold (\<lambda>t (m, idx). (m(task_id t \<mapsto> idx), idx + 1)) zs (m, n)) (task_id (zs ! p))
     = Some (n + p)"
proof (induction zs arbitrary: m n p)
  case Nil
  then show ?case by simp
next
  case (Cons z zs)
  have step: "fold (\<lambda>t (m, idx). (m(task_id t \<mapsto> idx), idx + 1)) (z # zs) (m, n)
                = fold (\<lambda>t (m, idx). (m(task_id t \<mapsto> idx), idx + 1)) zs
                    (m(task_id z \<mapsto> n), n + 1)"
    by simp
  show ?case
  proof (cases p)
    case 0
    have "task_id z \<notin> task_id ` set zs"
      using Cons.prems(1) by auto
    then have "fst (fold (\<lambda>t (m, idx). (m(task_id t \<mapsto> idx), idx + 1)) zs
                      (m(task_id z \<mapsto> n), n + 1)) (task_id z) = (m(task_id z \<mapsto> n)) (task_id z)"
      by (rule indexFold_other)
    then show ?thesis
      unfolding step 0 by simp
  next
    case (Suc q)
    have "fst (fold (\<lambda>t (m, idx). (m(task_id t \<mapsto> idx), idx + 1)) zs
                 (m(task_id z \<mapsto> n), n + 1)) (task_id (zs ! q)) = Some (n + 1 + q)"
      using Cons.prems Suc by (intro Cons.IH) simp_all
    then show ?thesis
      unfolding step Suc by simp
  qed
qed

lemma buildIndexMap_order:
  assumes dist: "distinct (map task_id (concat tiers))"
    and jk: "j < k" "k < length tiers"
    and u: "u \<in> set (tiers ! j)" and t: "t \<in> set (tiers ! k)"
  shows "\<exists>a b. buildIndexMap tiers (task_id u) = Some a \<and> buildIndexMap tiers (task_id t) = Some b
           \<and> a < b"
proof -
  let ?xs = "concat (take k tiers)" and ?ys = "concat (drop k tiers)"
  have split: "concat tiers = ?xs @ ?ys"
    by (metis append_take_drop_id concat_append)
  have "tiers ! j \<in> set (take k tiers)"
    using jk by (auto simp: in_set_conv_nth intro!: exI [of _ j])
  with u have "u \<in> set ?xs" by auto
  then obtain a where a: "a < length ?xs" "?xs ! a = u"
    unfolding in_set_conv_nth by blast
  have "drop k tiers = tiers ! k # drop (Suc k) tiers"
    using jk(2) by (simp add: Cons_nth_drop_Suc)
  with t have "t \<in> set ?ys" by simp
  then obtain b where b: "b < length ?ys" "?ys ! b = t"
    unfolding in_set_conv_nth by blast
  have ia: "concat tiers ! a = u" "a < length (concat tiers)"
    using a unfolding split by (simp_all add: nth_append)
  have ib: "concat tiers ! (length ?xs + b) = t" "length ?xs + b < length (concat tiers)"
    using b unfolding split by (simp_all add: nth_append)
  have "buildIndexMap tiers (task_id u) = Some a"
    unfolding buildIndexMap_def using indexFold_nth [OF dist ia(2), of Map.empty 0] ia(1) by simp
  moreover have "buildIndexMap tiers (task_id t) = Some (length ?xs + b)"
    unfolding buildIndexMap_def using indexFold_nth [OF dist ib(2), of Map.empty 0] ib(1) by simp
  ultimately show ?thesis
    using a(1) by simp
qed

lemma computeTiers_shape:
  assumes closed: "dependencyClosed tasks" and acyc: "acyclic (depRel tasks)"
    and n: "length tasks \<le> n"
  shows "\<exists>tf tiers. computeTiers n tasks = Some (Inr tiers)
           \<and> memoOk (taskMapOf tasks) tf
           \<and> (\<forall>t\<in>set tasks. \<exists>v<length tiers. tf (task_id t) = Some (Fin v))
           \<and> (\<forall>k<length tiers. tiers ! k = filter (\<lambda>t. tf (task_id t) = Some (Fin k)) tasks)
           \<and> mset (concat tiers) = mset tasks"
proof -
  let ?tm = "taskMapOf tasks"
  have each: "\<forall>t\<in>set tasks. \<exists>v<n. tierSpec ?tm (task_id t) v"
  proof
    fix t assume "t \<in> set tasks"
    then have "task_id t \<in> task_id ` set tasks" by simp
    from tierSpec_exists [OF closed acyc this]
    obtain v where v: "tierSpec ?tm (task_id t) v" ..
    from tierSpec_less_length [OF closed acyc v] n have "v < n" by simp
    with v show "\<exists>v<n. tierSpec ?tm (task_id t) v" by blast
  qed
  have ok0: "memoOk ?tm Map.empty"
    unfolding memoOk_def by simp
  from tierLoop_ok [OF each ok0]
  obtain tf where tf: "tierLoop n ?tm tasks Map.empty = Some tf" "memoOk ?tm tf"
      "\<forall>t\<in>set tasks. \<exists>v. tf (task_id t) = Some (Fin v)"
    by blast
  from placeLoop_ok [OF tf(3), of "[]"]
  obtain tiers where tiers: "placeLoop tf tasks [] = Inr tiers"
      "\<forall>t\<in>set tasks. \<forall>v. tf (task_id t) = Some (Fin v) \<longrightarrow> v < length tiers"
      "\<forall>k. slot tiers k = slot [] k @ filter (\<lambda>t. tf (task_id t) = Some (Fin k)) tasks"
    by blast
  have run: "computeTiers n tasks = Some (Inr tiers)"
    unfolding computeTiers_def using tf(1) tiers(1) by simp
  have a: "\<forall>t\<in>set tasks. \<exists>v<length tiers. tf (task_id t) = Some (Fin v)"
    using tf(3) tiers(2) by blast
  have b: "\<forall>k<length tiers. tiers ! k = filter (\<lambda>t. tf (task_id t) = Some (Fin k)) tasks"
  proof (intro allI impI)
    fix k assume "k < length tiers"
    then have "slot tiers k = tiers ! k"
      unfolding slot_def by simp
    moreover have "slot tiers k = slot [] k @ filter (\<lambda>t. tf (task_id t) = Some (Fin k)) tasks"
      using tiers(3) by blast
    ultimately show "tiers ! k = filter (\<lambda>t. tf (task_id t) = Some (Fin k)) tasks"
      unfolding slot_def by simp
  qed
  have c: "mset (concat tiers) = mset tasks"
    using placeLoop_mset [OF tiers(1)] by simp
  from run tf(2) a b c show ?thesis by blast
qed

lemma shape_member:
  assumes ok: "memoOk (taskMapOf tasks) tf"
    and a: "\<forall>t\<in>set tasks. \<exists>v<length tiers. tf (task_id t) = Some (Fin v)"
    and b: "\<forall>k<length tiers. tiers ! k = filter (\<lambda>t. tf (task_id t) = Some (Fin k)) tasks"
    and u: "u \<in> set tasks" and spec: "tierSpec (taskMapOf tasks) (task_id u) w"
  shows "w < length tiers \<and> u \<in> set (tiers ! w)"
proof -
  obtain v where v: "v < length tiers" "tf (task_id u) = Some (Fin v)"
    using a u by blast
  then have "tierSpec (taskMapOf tasks) (task_id u) v"
    using ok unfolding memoOk_def by auto
  with spec have "v = w"
    using tierSpec_det by blast
  with v b u show ?thesis by simp
qed

lemma shape_spec:
  assumes ok: "memoOk (taskMapOf tasks) tf"
    and b: "\<forall>k<length tiers. tiers ! k = filter (\<lambda>t. tf (task_id t) = Some (Fin k)) tasks"
    and k: "k < length tiers" and t: "t \<in> set (tiers ! k)"
  shows "t \<in> set tasks \<and> tierSpec (taskMapOf tasks) (task_id t) k"
proof -
  have "t \<in> set tasks" "tf (task_id t) = Some (Fin k)"
    using b k t by simp_all
  then show ?thesis
    using ok unfolding memoOk_def by auto
qed

lemma dependency_tiers:
  assumes dist: "distinct (map task_id tasks)" and closed: "dependencyClosed tasks"
    and ok: "memoOk (taskMapOf tasks) tf"
    and a: "\<forall>t\<in>set tasks. \<exists>v<length tiers. tf (task_id t) = Some (Fin v)"
    and b: "\<forall>k<length tiers. tiers ! k = filter (\<lambda>t. tf (task_id t) = Some (Fin k)) tasks"
    and t: "t \<in> set tasks" and spec: "tierSpec (taskMapOf tasks) (task_id t) k"
  shows "(dependencies t = [] \<longrightarrow> k = 0)
       \<and> (dependencies t \<noteq> [] \<longrightarrow>
            (\<exists>j. k = Suc j
               \<and> (\<forall>d\<in>set (dependencies t). \<exists>j'\<le>j. \<exists>u\<in>set (tiers ! j'). task_id u = d)
               \<and> (\<exists>d\<in>set (dependencies t). \<exists>u\<in>set (tiers ! j). task_id u = d)))"
proof -
  let ?tm = "taskMapOf tasks"
  have tm: "?tm (task_id t) = Some t"
    using dist t by (rule taskMapOf_in)
  have placed: "\<exists>u\<in>set (tiers ! w). task_id u = d"
    if d: "d \<in> set (dependencies t)" and w: "tierSpec ?tm d w" for d w
  proof -
    obtain u where u: "u \<in> set tasks" "task_id u = d"
      using closed t d unfolding dependencyClosed_def by (metis imageE)
    from shape_member [OF ok a b u(1)] w u(2) have "u \<in> set (tiers ! w)"
      by simp
    with u(2) show ?thesis by blast
  qed
  from spec show ?thesis
  proof (cases rule: tierSpec.cases)
    case (root t')
    with tm show ?thesis by simp
  next
    case (step t' m)
    with tm have t': "t' = t" by simp
    have ne: "dependencies t \<noteq> []"
      using step(3) t' by simp
    have lower: "\<forall>d\<in>set (dependencies t). \<exists>j'\<le>m. \<exists>u\<in>set (tiers ! j'). task_id u = d"
    proof
      fix d assume d: "d \<in> set (dependencies t)"
      then obtain k' where "k' \<le> m" "tierSpec ?tm d k'"
        using step(4) t' by blast
      with placed [OF d] show "\<exists>j'\<le>m. \<exists>u\<in>set (tiers ! j'). task_id u = d"
        by blast
    qed
    obtain d0 where "d0 \<in> set (dependencies t)" "tierSpec ?tm d0 m"
      using step(5) t' by blast
    with placed have top: "\<exists>d\<in>set (dependencies t). \<exists>u\<in>set (tiers ! m). task_id u = d"
      by blast
    from ne step(1) lower top show ?thesis by blast
  qed
qed

lemma exampleGraph_wellFormed:
  "wellFormedGraph [exampleTask ''t3'' [''t1'', ''t2''], exampleTask ''t1'' [],
                    exampleTask ''t2'' [''t1'']]"
proof -
  let ?ex = "[exampleTask ''t3'' [''t1'', ''t2''], exampleTask ''t1'' [], exampleTask ''t2'' [''t1'']]"
  let ?f = "\<lambda>i. if i = ''t3'' then 2 else if i = ''t2'' then 1 else (0::nat)"
  have "depRel ?ex \<subseteq> measure ?f"
    unfolding depRel_def by auto
  then have "wf (depRel ?ex)"
    using wf_measure by (rule wf_subset [rotated])
  then have "acyclic (depRel ?ex)"
    by (rule wf_acyclic)
  then show ?thesis
    unfolding wellFormedGraph_def dependencyClosed_def by simp
qed

lemma exampleGraph_tiers:
  "computeTiers 3 [exampleTask ''t3'' [''t1'', ''t2''], exampleTask ''t1'' [],
                   exampleTask ''t2'' [''t1'']]
     = Some (Inr [[exampleTask ''t1'' []], [exampleTask ''t2'' [''t1'']],
                  [exampleTask ''t3'' [''t1'', ''t2'']]])"
  by (simp add: computeTiers_def taskMapOf_def eval_nat_numeral Let_def)

lemma duplicateGraph_valid:
  "dependencyClosed [exampleTask ''t1'' [''t2''], exampleTask ''t1'' [], exampleTask ''t2'' []]
   \<and> acyclic (depRel [exampleTask ''t1'' [''t2''], exampleTask ''t1'' [],
                       exampleTask ''t2'' []])"
proof -
  let ?ex = "[exampleTask ''t1'' [''t2''], exampleTask ''t1'' [], exampleTask ''t2'' []]"
  let ?f = "\<lambda>i. if i = ''t1'' then 1 else (0::nat)"
  have "depRel ?ex \<subseteq> measure ?f"
    unfolding depRel_def by auto
  then have "wf (depRel ?ex)"
    using wf_measure by (rule wf_subset [rotated])
  then have "acyclic (depRel ?ex)"
    by (rule wf_acyclic)
  then show ?thesis
    unfolding dependencyClosed_def by simp
qed

text \<open>
  C6. For a task list that is dependency-closed and acyclic, \<^verbatim>\<open>computeTiers\<close>
  returns: a recursion depth of the number of tasks is enough for every \<^verbatim>\<open>getTier\<close>
  call, and no push throws. Every task of the list is in exactly one of the returned
  tiers, and the tiers together hold exactly the tasks of the list, each as often as the
  list does.
\<close>

theorem computeTiers_partition:
  assumes closed: "dependencyClosed tasks" and acyc: "acyclic (depRel tasks)"
    and n: "length tasks \<le> n"
  shows "\<exists>tiers. computeTiers n tasks = Some (Inr tiers)
           \<and> (\<forall>t\<in>set tasks. \<exists>!k. k < length tiers \<and> t \<in> set (tiers ! k))
           \<and> mset (concat tiers) = mset tasks"
proof -
  from computeTiers_shape [OF closed acyc n]
  obtain tf tiers where r: "computeTiers n tasks = Some (Inr tiers)"
      "memoOk (taskMapOf tasks) tf"
      "\<forall>t\<in>set tasks. \<exists>v<length tiers. tf (task_id t) = Some (Fin v)"
      "\<forall>k<length tiers. tiers ! k = filter (\<lambda>t. tf (task_id t) = Some (Fin k)) tasks"
      "mset (concat tiers) = mset tasks"
    by blast
  have "\<forall>t\<in>set tasks. \<exists>!k. k < length tiers \<and> t \<in> set (tiers ! k)"
  proof
    fix t assume t: "t \<in> set tasks"
    then obtain v where v: "v < length tiers" "tf (task_id t) = Some (Fin v)"
      using r(3) by blast
    show "\<exists>!k. k < length tiers \<and> t \<in> set (tiers ! k)"
    proof (rule ex1I [of _ v])
      show "v < length tiers \<and> t \<in> set (tiers ! v)"
        using v t r(4) by simp
    next
      fix k assume k: "k < length tiers \<and> t \<in> set (tiers ! k)"
      then have "tiers ! k = filter (\<lambda>t. tf (task_id t) = Some (Fin k)) tasks"
        using r(4) by blast
      with k have "tf (task_id t) = Some (Fin k)"
        by simp
      with v(2) show "k = v" by simp
    qed
  qed
  with r(1,5) show ?thesis by blast
qed

theorem computeTiers_partition_witness:
  "dependencyClosed [exampleTask ''t3'' [''t1'', ''t2''], exampleTask ''t1'' [],
                     exampleTask ''t2'' [''t1'']]
   \<and> acyclic (depRel [exampleTask ''t3'' [''t1'', ''t2''], exampleTask ''t1'' [],
                       exampleTask ''t2'' [''t1'']])
   \<and> (\<exists>tiers. computeTiers 3 [exampleTask ''t3'' [''t1'', ''t2''], exampleTask ''t1'' [],
                                exampleTask ''t2'' [''t1'']] = Some (Inr tiers)
         \<and> tiers = [[exampleTask ''t1'' []], [exampleTask ''t2'' [''t1'']],
                     [exampleTask ''t3'' [''t1'', ''t2'']]]
         \<and> (\<forall>t\<in>set [exampleTask ''t3'' [''t1'', ''t2''], exampleTask ''t1'' [],
                      exampleTask ''t2'' [''t1'']].
               \<exists>!k. k < length tiers \<and> t \<in> set (tiers ! k))
         \<and> mset (concat tiers)
             = mset [exampleTask ''t3'' [''t1'', ''t2''], exampleTask ''t1'' [],
                     exampleTask ''t2'' [''t1'']])"
proof -
  let ?ex = "[exampleTask ''t3'' [''t1'', ''t2''], exampleTask ''t1'' [],
              exampleTask ''t2'' [''t1'']]"
  have closed: "dependencyClosed ?ex" and acyc: "acyclic (depRel ?ex)"
    using exampleGraph_wellFormed unfolding wellFormedGraph_def by simp_all
  from computeTiers_partition [OF closed acyc, of 3] closed acyc exampleGraph_tiers
  show ?thesis by simp
qed

text \<open>
  C5, as stated, at a dependency-closed, acyclic list in which the id \<open>t1\<close> occurs
  twice: the first \<open>t1\<close> depends on \<open>t2\<close>, the second has no dependencies. The task
  map keeps the second, so all three tasks are placed in tier 0, the first \<open>t1\<close>
  together with its dependency \<open>t2\<close>; and \<^verbatim>\<open>buildIndexMap\<close> gives \<open>t1\<close> the index
  1, below the index 2 of its dependency \<open>t2\<close>.
\<close>

theorem computeTiers_counterexample:
  "dependencyClosed [exampleTask ''t1'' [''t2''], exampleTask ''t1'' [], exampleTask ''t2'' []]
   \<and> acyclic (depRel [exampleTask ''t1'' [''t2''], exampleTask ''t1'' [],
                       exampleTask ''t2'' []])
   \<and> computeTiers 3 [exampleTask ''t1'' [''t2''], exampleTask ''t1'' [], exampleTask ''t2'' []]
       = Some (Inr [[exampleTask ''t1'' [''t2''], exampleTask ''t1'' [], exampleTask ''t2'' []]])
   \<and> buildIndexMap [[exampleTask ''t1'' [''t2''], exampleTask ''t1'' [], exampleTask ''t2'' []]]
       ''t1'' = Some 1
   \<and> buildIndexMap [[exampleTask ''t1'' [''t2''], exampleTask ''t1'' [], exampleTask ''t2'' []]]
       ''t2'' = Some 2"
proof -
  have "computeTiers 3 [exampleTask ''t1'' [''t2''], exampleTask ''t1'' [], exampleTask ''t2'' []]
       = Some (Inr [[exampleTask ''t1'' [''t2''], exampleTask ''t1'' [], exampleTask ''t2'' []]])"
    by (simp add: computeTiers_def taskMapOf_def eval_nat_numeral Let_def)
  moreover have "buildIndexMap
       [[exampleTask ''t1'' [''t2''], exampleTask ''t1'' [], exampleTask ''t2'' []]] ''t1'' = Some 1"
    by (simp add: buildIndexMap_def)
  moreover have "buildIndexMap
       [[exampleTask ''t1'' [''t2''], exampleTask ''t1'' [], exampleTask ''t2'' []]] ''t2'' = Some 2"
    by (simp add: buildIndexMap_def)
  ultimately show ?thesis
    using duplicateGraph_valid by simp
qed

text \<open>
  C5, amended. For a task list with unique ids that is dependency-closed and acyclic,
  \<^verbatim>\<open>computeTiers\<close> returns tiers such that every task of the list is in a tier,
  and every task in a tier is there as follows: a task without dependencies is in tier
  0 and a task with dependencies is in tier \<open>j + 1\<close>, where every dependency is in a
  tier of index at most \<open>j\<close> and some dependency is in tier \<open>j\<close> (so \<open>j\<close> is the
  maximum tier of its dependencies, and all dependencies lie in strictly lower tiers).
  The index \<^verbatim>\<open>buildIndexMap\<close> assigns over these tiers is a topological order: the
  index of a task is strictly greater than the index of each of its dependencies.
\<close>

theorem computeTiers_topological:
  assumes dist: "distinct (map task_id tasks)" and closed: "dependencyClosed tasks"
    and acyc: "acyclic (depRel tasks)" and n: "length tasks \<le> n"
  shows "\<exists>tiers. computeTiers n tasks = Some (Inr tiers)
           \<and> (\<forall>t\<in>set tasks. \<exists>k<length tiers. t \<in> set (tiers ! k))
           \<and> (\<forall>k<length tiers. \<forall>t\<in>set (tiers ! k).
                 (dependencies t = [] \<longrightarrow> k = 0)
               \<and> (dependencies t \<noteq> [] \<longrightarrow>
                    (\<exists>j. k = Suc j
                       \<and> (\<forall>d\<in>set (dependencies t). \<exists>j'\<le>j. \<exists>u\<in>set (tiers ! j'). task_id u = d)
                       \<and> (\<exists>d\<in>set (dependencies t). \<exists>u\<in>set (tiers ! j). task_id u = d))))
           \<and> (\<forall>t\<in>set tasks. \<forall>d\<in>set (dependencies t).
                 \<exists>a b. buildIndexMap tiers d = Some a
                      \<and> buildIndexMap tiers (task_id t) = Some b \<and> a < b)"
proof -
  let ?tm = "taskMapOf tasks"
  from computeTiers_shape [OF closed acyc n]
  obtain tf tiers where r: "computeTiers n tasks = Some (Inr tiers)"
      "memoOk ?tm tf"
      "\<forall>t\<in>set tasks. \<exists>v<length tiers. tf (task_id t) = Some (Fin v)"
      "\<forall>k<length tiers. tiers ! k = filter (\<lambda>t. tf (task_id t) = Some (Fin k)) tasks"
      "mset (concat tiers) = mset tasks"
    by blast
  have placed: "\<forall>t\<in>set tasks. \<exists>k<length tiers. t \<in> set (tiers ! k)"
  proof
    fix t assume t: "t \<in> set tasks"
    then obtain v where v: "v < length tiers" "tf (task_id t) = Some (Fin v)"
      using r(3) by blast
    then have "t \<in> set (tiers ! v)"
      using r(4) t by simp
    with v(1) show "\<exists>k<length tiers. t \<in> set (tiers ! k)" by blast
  qed
  have tiersOk: "\<forall>k<length tiers. \<forall>t\<in>set (tiers ! k).
                 (dependencies t = [] \<longrightarrow> k = 0)
               \<and> (dependencies t \<noteq> [] \<longrightarrow>
                    (\<exists>j. k = Suc j
                       \<and> (\<forall>d\<in>set (dependencies t). \<exists>j'\<le>j. \<exists>u\<in>set (tiers ! j'). task_id u = d)
                       \<and> (\<exists>d\<in>set (dependencies t). \<exists>u\<in>set (tiers ! j). task_id u = d)))"
  proof (intro allI impI ballI)
    fix k t assume k: "k < length tiers" and t: "t \<in> set (tiers ! k)"
    from shape_spec [OF r(2) r(4) k t]
    have "t \<in> set tasks" "tierSpec ?tm (task_id t) k" by simp_all
    then show "(dependencies t = [] \<longrightarrow> k = 0)
               \<and> (dependencies t \<noteq> [] \<longrightarrow>
                    (\<exists>j. k = Suc j
                       \<and> (\<forall>d\<in>set (dependencies t). \<exists>j'\<le>j. \<exists>u\<in>set (tiers ! j'). task_id u = d)
                       \<and> (\<exists>d\<in>set (dependencies t). \<exists>u\<in>set (tiers ! j). task_id u = d)))"
      by (rule dependency_tiers [OF dist closed r(2) r(3) r(4)])
  qed
  have "mset (map task_id (concat tiers)) = mset (map task_id tasks)"
    using r(5) by (metis mset_map)
  then have distc: "distinct (map task_id (concat tiers))"
    using dist by (metis mset_eq_imp_distinct_iff)
  have order: "\<forall>t\<in>set tasks. \<forall>d\<in>set (dependencies t).
                 \<exists>a b. buildIndexMap tiers d = Some a
                      \<and> buildIndexMap tiers (task_id t) = Some b \<and> a < b"
  proof (intro ballI)
    fix t d assume t: "t \<in> set tasks" and d: "d \<in> set (dependencies t)"
    obtain k where k: "k < length tiers" "tf (task_id t) = Some (Fin k)"
      using r(3) t by blast
    then have tk: "t \<in> set (tiers ! k)"
      using r(4) t by simp
    have spec: "tierSpec ?tm (task_id t) k"
      using k(2) r(2) unfolding memoOk_def by auto
    from dependency_tiers [OF dist closed r(2) r(3) r(4) t spec] d
    obtain j j' u where j: "k = Suc j" "j' \<le> j" "u \<in> set (tiers ! j')" "task_id u = d"
      by (metis empty_iff list.set(1))
    have "j' < k" using j(1,2) by simp
    from buildIndexMap_order [OF distc this k(1) j(3) tk] j(4)
    show "\<exists>a b. buildIndexMap tiers d = Some a \<and> buildIndexMap tiers (task_id t) = Some b \<and> a < b"
      by simp
  qed
  from r(1) placed tiersOk order show ?thesis by blast
qed

theorem computeTiers_topological_witness:
  "wellFormedGraph [exampleTask ''t3'' [''t1'', ''t2''], exampleTask ''t1'' [],
                    exampleTask ''t2'' [''t1'']]
   \<and> (\<exists>tiers. computeTiers 3 [exampleTask ''t3'' [''t1'', ''t2''], exampleTask ''t1'' [],
                                exampleTask ''t2'' [''t1'']] = Some (Inr tiers)
         \<and> tiers = [[exampleTask ''t1'' []], [exampleTask ''t2'' [''t1'']],
                     [exampleTask ''t3'' [''t1'', ''t2'']]]
         \<and> (\<forall>t\<in>set [exampleTask ''t3'' [''t1'', ''t2''], exampleTask ''t1'' [],
                      exampleTask ''t2'' [''t1'']].
              \<forall>d\<in>set (dependencies t).
                 \<exists>a b. buildIndexMap tiers d = Some a
                      \<and> buildIndexMap tiers (task_id t) = Some b \<and> a < b))"
proof -
  let ?ex = "[exampleTask ''t3'' [''t1'', ''t2''], exampleTask ''t1'' [],
              exampleTask ''t2'' [''t1'']]"
  have dist: "distinct (map task_id ?ex)" and closed: "dependencyClosed ?ex"
    and acyc: "acyclic (depRel ?ex)"
    using exampleGraph_wellFormed unfolding wellFormedGraph_def by simp_all
  from computeTiers_topological [OF dist closed acyc, of 3] exampleGraph_wellFormed
    exampleGraph_tiers
  show ?thesis by simp
qed

section \<open>Properties of the mutation engine\<close>

lemma depRel_filter_subset: "depRel (filter P ts) \<subseteq> depRel ts"
  unfolding depRel_def by auto

lemma dependents_iff: "y \<in> set (dependents ts x) \<longleftrightarrow> (x, y) \<in> depRel ts"
  unfolding dependents_def depRel_def by auto

lemma collect_reach:
  "set (collect rest todo) = {d. \<exists>x\<in>set todo. (x, d) \<in> (depRel rest)\<^sup>*}"
proof (induction rest todo rule: collect.induct)
  case (1 rest)
  then show ?case by simp
next
  case (2 rest x todo)
  let ?miss = "filter (\<lambda>t. x \<notin> set (dependencies t)) rest"
  let ?next = "todo @ dependents rest x"
  have ih: "set (collect ?miss ?next) = {d. \<exists>y\<in>set ?next. (y, d) \<in> (depRel ?miss)\<^sup>*}"
    by (rule "2.IH")
  have sub: "(depRel ?miss)\<^sup>* \<subseteq> (depRel rest)\<^sup>*"
    by (rule rtrancl_mono) (rule depRel_filter_subset)
  show ?case
  proof (intro set_eqI iffI)
    fix d assume "d \<in> set (collect rest (x # todo))"
    then consider "d = x" | y where "y \<in> set ?next" "(y, d) \<in> (depRel ?miss)\<^sup>*"
      using ih by auto
    then show "d \<in> {d. \<exists>x\<in>set (x # todo). (x, d) \<in> (depRel rest)\<^sup>*}"
    proof cases
      case 1
      then show ?thesis by auto
    next
      case 2
      then have yd: "(y, d) \<in> (depRel rest)\<^sup>*"
        using sub by blast
      from 2(1) consider "y \<in> set todo" | "(x, y) \<in> depRel rest"
        by (auto simp: dependents_iff)
      then show ?thesis
      proof cases
        case 1
        with yd show ?thesis by auto
      next
        case 2
        from this yd have "(x, d) \<in> (depRel rest)\<^sup>*"
          by (rule converse_rtrancl_into_rtrancl)
        then show ?thesis by auto
      qed
    qed
  next
    fix d assume "d \<in> {d. \<exists>x\<in>set (x # todo). (x, d) \<in> (depRel rest)\<^sup>*}"
    then obtain y where y: "y \<in> set (x # todo)" "(y, d) \<in> (depRel rest)\<^sup>*"
      by blast
    from y(2) have "d = x \<or> (\<exists>z\<in>set ?next. (z, d) \<in> (depRel ?miss)\<^sup>*)"
    proof (induction rule: rtrancl_induct)
      case base
      with y(1) show ?case by auto
    next
      case (step d' d)
      from step.hyps(2) obtain t where t: "t \<in> set rest" "d' \<in> set (dependencies t)" "task_id t = d"
        unfolding depRel_def by auto
      show ?case
      proof (cases "x \<in> set (dependencies t)")
        case True
        with t have "d \<in> set (dependents rest x)"
          unfolding dependents_def by auto
        then show ?thesis by auto
      next
        case False
        with t have edge: "(d', d) \<in> depRel ?miss"
          unfolding depRel_def by auto
        from False t(2) have "d' \<noteq> x" by auto
        with step.IH obtain z where "z \<in> set ?next" "(z, d') \<in> (depRel ?miss)\<^sup>*"
          by blast
        with edge show ?thesis
          by (meson rtrancl.rtrancl_into_rtrancl)
      qed
    qed
    then show "d \<in> set (collect rest (x # todo))"
      using ih by auto
  qed
qed

lemma transitive_dependents_closure:
  "set (transitive_dependents ts i) = {d. (i, d) \<in> (depRel ts)\<^sup>+}"
proof (intro set_eqI iffI)
  let ?miss = "filter (\<lambda>t. i \<notin> set (dependencies t)) ts"
  fix d assume "d \<in> set (transitive_dependents ts i)"
  then obtain y where y: "(i, y) \<in> depRel ts" "(y, d) \<in> (depRel ?miss)\<^sup>*"
    unfolding transitive_dependents_def collect_reach by (auto simp: dependents_iff)
  have "(depRel ?miss)\<^sup>* \<subseteq> (depRel ts)\<^sup>*"
    by (rule rtrancl_mono) (rule depRel_filter_subset)
  with y(2) have "(y, d) \<in> (depRel ts)\<^sup>*" by blast
  with y(1) show "d \<in> {d. (i, d) \<in> (depRel ts)\<^sup>+}"
    by (auto intro: rtrancl_into_trancl2)
next
  let ?miss = "filter (\<lambda>t. i \<notin> set (dependencies t)) ts"
  fix d assume "d \<in> {d. (i, d) \<in> (depRel ts)\<^sup>+}"
  then obtain y where y: "(i, y) \<in> depRel ts" "(y, d) \<in> (depRel ts)\<^sup>*"
    by (auto dest: tranclD)
  from y(2) have "\<exists>z. (i, z) \<in> depRel ts \<and> (z, d) \<in> (depRel ?miss)\<^sup>*"
  proof (induction rule: rtrancl_induct)
    case base
    with y(1) show ?case by blast
  next
    case (step d' d)
    show ?case
    proof (cases "(i, d) \<in> depRel ts")
      case True
      then show ?thesis by blast
    next
      case False
      from step.hyps(2) obtain t where t: "t \<in> set ts" "d' \<in> set (dependencies t)" "task_id t = d"
        unfolding depRel_def by auto
      with False have "i \<notin> set (dependencies t)"
        unfolding depRel_def by auto
      with t have "(d', d) \<in> depRel ?miss"
        unfolding depRel_def by auto
      with step.IH show ?thesis
        by (meson rtrancl.rtrancl_into_rtrancl)
    qed
  qed
  then show "d \<in> set (transitive_dependents ts i)"
    unfolding transitive_dependents_def collect_reach by (auto simp: dependents_iff)
qed

lemma valid_graph_iff:
  "valid_graph ts \<longleftrightarrow> dependencyClosed ts \<and> acyclic (depRel ts)"
proof -
  have "(\<forall>t\<in>set ts. task_id t \<notin> set (transitive_dependents ts (task_id t))) \<longleftrightarrow> acyclic (depRel ts)"
  proof
    assume chk: "\<forall>t\<in>set ts. task_id t \<notin> set (transitive_dependents ts (task_id t))"
    show "acyclic (depRel ts)"
      unfolding acyclic_def
    proof (intro allI notI)
      fix x assume x: "(x, x) \<in> (depRel ts)\<^sup>+"
      then obtain z where "(z, x) \<in> depRel ts"
        by (meson tranclE)
      then obtain t where "t \<in> set ts" "task_id t = x"
        unfolding depRel_def by auto
      with chk x show False
        unfolding transitive_dependents_closure by auto
    qed
  next
    assume "acyclic (depRel ts)"
    then show "\<forall>t\<in>set ts. task_id t \<notin> set (transitive_dependents ts (task_id t))"
      unfolding transitive_dependents_closure acyclic_def by simp
  qed
  then show ?thesis
    unfolding valid_graph_def dependencyClosed_def by simp
qed

lemma invalidation_set_closure:
  "set (invalidation_set ts i) = insert i {d. (i, d) \<in> (depRel ts)\<^sup>+}"
proof -
  have "invalidation_set ts i = collect ts [i]"
    unfolding invalidation_set_def transitive_dependents_def by simp
  then have "set (invalidation_set ts i) = {d. (i, d) \<in> (depRel ts)\<^sup>*}"
    using collect_reach [of ts "[i]"] by simp
  also have "\<dots> = insert i {d. (i, d) \<in> (depRel ts)\<^sup>+}"
    by (auto simp: rtrancl_eq_or_trancl)
  finally show ?thesis .
qed

lemma depRel_map:
  "\<forall>t. task_id (f t) = task_id t \<and> dependencies (f t) = dependencies t \<Longrightarrow>
   depRel (map f ts) = depRel ts"
  unfolding depRel_def by (auto simp: image_iff) metis+

text \<open>
  C7. After a successful \<^verbatim>\<open>edit\<close> of task \<open>i\<close>, with the invalidation set taken as
  \<open>i\<close> together with every task that depends on \<open>i\<close> through a chain of
  dependencies (the transitive closure of the dependency relation of the edited graph):
  every task of the set has status \<^verbatim>\<open>pending\<close>, no summary and no attached output;
  every task outside the set is the same record as before (status and summary included)
  and has the same attached output; the artifacts are untouched; and no upstream task of
  \<open>i\<close> is in the set.
\<close>

theorem edit_invalidates:
  assumes ok: "edit i p s = Inr (s', cancelled)"
  shows "(\<forall>u\<in>set (store_tasks s').
            task_id u \<in> insert i {d. (i, d) \<in> (depRel (store_tasks s'))\<^sup>+} \<longrightarrow>
            status u = Pending \<and> output_summary u = None \<and> store_outputs s' (task_id u) = None)
       \<and> length (store_tasks s') = length (store_tasks s)
       \<and> (\<forall>k<length (store_tasks s).
            task_id (store_tasks s ! k) \<notin> insert i {d. (i, d) \<in> (depRel (store_tasks s'))\<^sup>+} \<longrightarrow>
            store_tasks s' ! k = store_tasks s ! k
            \<and> store_outputs s' (task_id (store_tasks s ! k)) = store_outputs s (task_id (store_tasks s ! k)))
       \<and> store_artifacts s' = store_artifacts s
       \<and> (\<forall>d. (d, i) \<in> (depRel (store_tasks s'))\<^sup>+ \<longrightarrow>
              d \<notin> insert i {d. (i, d) \<in> (depRel (store_tasks s'))\<^sup>+})"
proof -
  let ?patch = "\<lambda>t. if task_id t = i then apply_patch p t else t"
  let ?ts1 = "map ?patch (store_tasks s)"
  let ?inval = "invalidation_set ?ts1 i"
  let ?reset = "\<lambda>t. if task_id t \<in> set ?inval then t\<lparr>status := Pending, output_summary := None\<rparr> else t"
  have upd: "update_task i p s = Inr (s\<lparr>store_tasks := ?ts1\<rparr>)"
    using ok unfolding edit_def update_task_def
    by (auto simp: Let_def split: if_splits)
  have valid: "valid_graph ?ts1"
    using ok unfolding edit_def update_task_def
    by (auto simp: Let_def split: if_splits)
  from upd have s': "s' = reset_tasks ?inval (s\<lparr>store_tasks := ?ts1\<rparr>)"
    using ok unfolding edit_def by (simp add: Let_def)
  have tasks': "store_tasks s' = map ?reset ?ts1"
    unfolding s' reset_tasks_def by simp
  have outs': "store_outputs s' = (\<lambda>j. if j \<in> set ?inval then None else store_outputs s j)"
    unfolding s' reset_tasks_def by (simp cong: if_cong)
  have arts': "store_artifacts s' = store_artifacts s"
    unfolding s' reset_tasks_def by simp
  have "depRel (store_tasks s') = depRel ?ts1"
    unfolding tasks' by (rule depRel_map) simp
  then have rel: "depRel (store_tasks s') = depRel ?ts1" .
  have inval: "insert i {d. (i, d) \<in> (depRel (store_tasks s'))\<^sup>+} = set ?inval"
    unfolding rel using invalidation_set_closure [of ?ts1 i] by simp
  have acyc: "acyclic (depRel (store_tasks s'))"
    unfolding rel using valid valid_graph_iff by blast
  have up: "\<forall>d. (d, i) \<in> (depRel (store_tasks s'))\<^sup>+ \<longrightarrow>
              d \<notin> insert i {d. (i, d) \<in> (depRel (store_tasks s'))\<^sup>+}"
  proof (intro allI impI notI)
    fix d assume d: "(d, i) \<in> (depRel (store_tasks s'))\<^sup>+"
      and "d \<in> insert i {d. (i, d) \<in> (depRel (store_tasks s'))\<^sup>+}"
    then have "d = i \<or> (i, d) \<in> (depRel (store_tasks s'))\<^sup>+"
      by simp
    with d have "(i, i) \<in> (depRel (store_tasks s'))\<^sup>+"
      by (auto intro: trancl_trans)
    with acyc show False
      unfolding acyclic_def by simp
  qed
  have a: "\<forall>u\<in>set (store_tasks s'). task_id u \<in> set ?inval \<longrightarrow>
            status u = Pending \<and> output_summary u = None \<and> store_outputs s' (task_id u) = None"
    unfolding tasks' outs' by auto
  have b: "length (store_tasks s') = length (store_tasks s)"
    unfolding tasks' by simp
  have i_in: "i \<in> set ?inval"
    unfolding invalidation_set_def by simp
  have c: "\<forall>k<length (store_tasks s). task_id (store_tasks s ! k) \<notin> set ?inval \<longrightarrow>
            store_tasks s' ! k = store_tasks s ! k
            \<and> store_outputs s' (task_id (store_tasks s ! k)) = store_outputs s (task_id (store_tasks s ! k))"
  proof (intro allI impI)
    fix k assume k: "k < length (store_tasks s)" and out: "task_id (store_tasks s ! k) \<notin> set ?inval"
    then have "task_id (store_tasks s ! k) \<noteq> i"
      using i_in by auto
    then have "?ts1 ! k = store_tasks s ! k"
      using k by simp
    then have "store_tasks s' ! k = store_tasks s ! k"
      unfolding tasks' using k out by simp
    moreover have "store_outputs s' (task_id (store_tasks s ! k)) = store_outputs s (task_id (store_tasks s ! k))"
      unfolding outs' using out by simp
    ultimately show "store_tasks s' ! k = store_tasks s ! k
            \<and> store_outputs s' (task_id (store_tasks s ! k)) = store_outputs s (task_id (store_tasks s ! k))"
      by simp
  qed
  from a b c have "(\<forall>u\<in>set (store_tasks s'). task_id u \<in> set ?inval \<longrightarrow>
            status u = Pending \<and> output_summary u = None \<and> store_outputs s' (task_id u) = None)
       \<and> length (store_tasks s') = length (store_tasks s)
       \<and> (\<forall>k<length (store_tasks s). task_id (store_tasks s ! k) \<notin> set ?inval \<longrightarrow>
            store_tasks s' ! k = store_tasks s ! k
            \<and> store_outputs s' (task_id (store_tasks s ! k)) = store_outputs s (task_id (store_tasks s ! k)))"
    by blast
  then show ?thesis
    unfolding inval [symmetric] using arts' up by blast
qed

lemma exampleStore_edit:
  "edit ''t2'' examplePatch exampleStore
     = Inr (reset_tasks [''t2'', ''t3'']
              (exampleStore\<lparr>store_tasks :=
                 [(exampleTask ''t1'' [])\<lparr>status := Completed, output_summary := Some ''one''\<rparr>,
                  (exampleTask ''t2'' [''t1''])\<lparr>status := Running, prompt := ''new prompt''\<rparr>,
                  (exampleTask ''t3'' [''t2''])\<lparr>status := Completed,
                                               output_summary := Some ''three''\<rparr>]\<rparr>),
            [''t2''])"
  by (simp add: edit_def update_task_def valid_graph_def transitive_dependents_def
      invalidation_set_def dependents_def apply_patch_def Let_def)

theorem edit_invalidates_witness:
  "\<exists>s' cancelled. edit ''t2'' examplePatch exampleStore = Inr (s', cancelled)
     \<and> map status (store_tasks s') = [Completed, Pending, Pending]
     \<and> map output_summary (store_tasks s') = [Some ''one'', None, None]
     \<and> store_outputs s' ''t1'' = Some \<lparr>out_summary = ''one'', out_artifacts = [''art1'']\<rparr>
     \<and> store_outputs s' ''t2'' = None
     \<and> store_outputs s' ''t3'' = None
     \<and> store_artifacts s' = store_artifacts exampleStore"
  using edit_invalidates [OF exampleStore_edit] exampleStore_edit
  by (simp add: reset_tasks_def)

section \<open>Properties of the dependency selection\<close>

text \<open>
  C9. Toggling an id removes it when present and appends it when absent: membership of
  that id is negated, toggling twice restores the original membership, and the
  membership of every other id is unchanged.
\<close>

theorem toggleDep_membership:
  "toggleDep x xs = (if x \<in> set xs then filter (\<lambda>i. i \<noteq> x) xs else xs @ [x])
   \<and> (x \<in> set (toggleDep x xs)) = (x \<notin> set xs)
   \<and> (x \<in> set (toggleDep x (toggleDep x xs))) = (x \<in> set xs)
   \<and> set (toggleDep x (toggleDep x xs)) = set xs
   \<and> (\<forall>y. y \<noteq> x \<longrightarrow> (y \<in> set (toggleDep x xs)) = (y \<in> set xs))"
  by (auto simp: toggleDep_def)

theorem toggleDep_membership_witness:
  "toggleDep ''t2'' [''t1'', ''t2'', ''t3''] = [''t1'', ''t3'']
   \<and> toggleDep ''t2'' (toggleDep ''t2'' [''t1'', ''t2'', ''t3'']) = [''t1'', ''t3'', ''t2'']
   \<and> (''t1'' \<in> set (toggleDep ''t2'' [''t1'', ''t2'', ''t3''])) = (''t1'' \<in> set [''t1'', ''t2'', ''t3''])"
  using toggleDep_membership [of "''t2''" "[''t1'', ''t2'', ''t3'']"]
  by (simp add: toggleDep_def)

end
